theory Spec2Isabelle
  imports Complex_Main
begin

section \<open>Strings\<close>

text \<open>
  A Python \<open>str\<close> is a sequence of Unicode code points and \<open>len\<close> counts code points,
  so a text is a list of code points. \<open>ustr\<close> reads an ASCII literal as such a text.
\<close>

type_synonym ustring = "nat list"

definition ustr :: "string \<Rightarrow> ustring" where
  "ustr s = map of_char s"

definition in_range :: "nat \<Rightarrow> nat \<Rightarrow> nat \<Rightarrow> bool" where
  "in_range lo hi c = (lo \<le> c \<and> c \<le> hi)"

section \<open>Language heuristic (text_processor.py, TextProcessor)\<close>

text \<open>
  The four character classes of \<open>_simple_language_detect\<close>: U+3040 to U+309F, U+30A0 to
  U+30FF and U+4E00 to U+9FFF for Japanese, U+4E00 to U+9FFF for Chinese, U+AC00 to U+D7AF
  for Korean, and \<^verbatim>\<open>[a-zA-Z]\<close> for Latin.
\<close>

definition is_japanese :: "nat \<Rightarrow> bool" where
  "is_japanese c =
     (in_range 0x3040 0x309F c \<or> in_range 0x30A0 0x30FF c \<or> in_range 0x4E00 0x9FFF c)"

definition is_chinese :: "nat \<Rightarrow> bool" where
  "is_chinese c = in_range 0x4E00 0x9FFF c"

definition is_korean :: "nat \<Rightarrow> bool" where
  "is_korean c = in_range 0xAC00 0xD7AF c"

definition is_latin :: "nat \<Rightarrow> bool" where
  "is_latin c = (in_range 0x61 0x7A c \<or> in_range 0x41 0x5A c)"

text \<open>\<open>len(re.findall(cls, text))\<close> for a one-character class \<open>cls\<close>.\<close>

definition count_chars :: "(nat \<Rightarrow> bool) \<Rightarrow> ustring \<Rightarrow> nat" where
  "count_chars cls text = length (filter cls text)"

text \<open>
  \<open>_simple_language_detect\<close> (a name cannot start with an underscore here). The counts
  are Python ints, the confidence a float quotient of two of them and the thresholds the
  float products \<open>total * 0.3\<close> and \<open>total * 0.1\<close>; they are read as real numbers.
\<close>

definition simple_language_detect :: "ustring \<Rightarrow> string \<times> real" where
  "simple_language_detect text =
     (let japanese_chars = count_chars is_japanese text;
          chinese_chars = count_chars is_chinese text;
          korean_chars = count_chars is_korean text;
          latin_chars = count_chars is_latin text;
          total = japanese_chars + chinese_chars + korean_chars + latin_chars
      in if total = 0 then (''unknown'', 0)
         else if real japanese_chars > real total * 0.3
           then (''ja'', real japanese_chars / real total)
         else if real korean_chars > real total * 0.3
           then (''ko'', real korean_chars / real total)
         else if real chinese_chars > real total * 0.3 \<and> real japanese_chars < real total * 0.1
           then (''zh'', real chinese_chars / real total)
         else (''en'', real latin_chars / real total))"

text \<open>
  What the external detector does on a call: the import of \<open>langdetect\<close> fails
  (\<open>ImportError\<close>), something else is raised, or \<open>detect_langs\<close> returns its list of
  (language, probability) pairs, best first.
\<close>

datatype detector_outcome =
  ImportError
  | OtherException
  | Langs "(string \<times> real) list"

definition detect_language :: "(ustring \<Rightarrow> detector_outcome) \<Rightarrow> ustring \<Rightarrow> string \<times> real" where
  "detect_language detect_langs text =
     (case detect_langs text of
        Langs results \<Rightarrow>
          (case results of
             top_result # _ \<Rightarrow> top_result
           | [] \<Rightarrow> (''unknown'', 0))
      | ImportError \<Rightarrow> simple_language_detect text
      | OtherException \<Rightarrow> (''unknown'', 0))"

text \<open>A detector that is installed and raises on every text.\<close>

definition raising_detector :: "ustring \<Rightarrow> detector_outcome" where
  "raising_detector text = OtherException"

text \<open>A detector whose import fails.\<close>

definition missing_detector :: "ustring \<Rightarrow> detector_outcome" where
  "missing_detector text = ImportError"

section \<open>Text cleaner (text_processor.py, TextProcessor.clean_text)\<close>

text \<open>
  What the cleaner takes from Python's Unicode database, as parameters: the NFKC
  normalisation \<open>unicodedata.normalize('NFKC', _)\<close>, \<open>str.lower\<close>, and \<open>str.isalnum\<close> on the
  code points beyond ASCII.
\<close>

record unicode_lib =
  nfkc :: "ustring \<Rightarrow> ustring"
  lower :: "ustring \<Rightarrow> ustring"
  isalnum :: "nat \<Rightarrow> bool"

text \<open>
  The class \<^verbatim>\<open>\w\<close> of a \<open>str\<close> pattern: an alphanumeric character or the underscore.
  On ASCII the alphanumeric characters are the digits and the letters.
\<close>

definition is_word :: "unicode_lib \<Rightarrow> nat \<Rightarrow> bool" where
  "is_word lib c =
     (if c < 128
      then in_range 0x30 0x39 c \<or> in_range 0x41 0x5A c \<or> in_range 0x61 0x7A c \<or> c = 0x5F
      else isalnum lib c)"

text \<open>The whitespace of \<open>str.split()\<close> and \<open>str.strip()\<close> (\<open>str.isspace\<close>).\<close>

definition is_space :: "nat \<Rightarrow> bool" where
  "is_space c =
     (in_range 0x09 0x0D c \<or> in_range 0x1C 0x1F c \<or> c = 0x20 \<or> c = 0x85 \<or> c = 0xA0
      \<or> c = 0x1680 \<or> in_range 0x2000 0x200A c \<or> c = 0x2028 \<or> c = 0x2029
      \<or> c = 0x202F \<or> c = 0x205F \<or> c = 0x3000)"

fun strip_prefix :: "ustring \<Rightarrow> ustring \<Rightarrow> ustring option" where
  "strip_prefix [] s = Some s"
| "strip_prefix (p # ps) [] = None"
| "strip_prefix (p # ps) (c # cs) = (if p = c then strip_prefix ps cs else None)"

text \<open>
  \<open>url_pattern\<close>:
  \<^verbatim>\<open>http[s]?://(?:[a-zA-Z]|[0-9]|[$-_@.&+]|[!*\\(\\),]|(?:%[0-9a-fA-F][0-9a-fA-F]))+\<close>.
  \<open>url_char\<close> is the union of the four one-character alternatives, in their order
  (\<^verbatim>\<open>$-_\<close> is the range U+0024 to U+005F); \<open>url_unit\<close> is one round of the group, trying
  the percent escape last; \<open>url_body\<close> repeats the group greedily. Nothing follows the
  group in the pattern, so the greedy repetition is never undone.
\<close>

definition url_char :: "nat \<Rightarrow> bool" where
  "url_char c =
     ((in_range 0x61 0x7A c \<or> in_range 0x41 0x5A c)
      \<or> in_range 0x30 0x39 c
      \<or> (in_range 0x24 0x5F c \<or> c = 0x40 \<or> c = 0x2E \<or> c = 0x26 \<or> c = 0x2B)
      \<or> (c = 0x21 \<or> c = 0x2A \<or> c = 0x5C \<or> c = 0x28 \<or> c = 0x29 \<or> c = 0x2C))"

definition hex_digit :: "nat \<Rightarrow> bool" where
  "hex_digit c = (in_range 0x30 0x39 c \<or> in_range 0x61 0x66 c \<or> in_range 0x41 0x46 c)"

fun url_unit :: "ustring \<Rightarrow> ustring option" where
  "url_unit [] = None"
| "url_unit (c # cs) =
     (if url_char c then Some cs
      else (case cs of
              h1 # h2 # rest \<Rightarrow> if c = 0x25 \<and> hex_digit h1 \<and> hex_digit h2 then Some rest else None
            | _ \<Rightarrow> None))"

lemma url_unit_shorter: "url_unit s = Some r \<Longrightarrow> length r < length s"
  by (cases s) (auto split: if_splits list.splits)

function url_body :: "ustring \<Rightarrow> ustring" where
  "url_body s = (case url_unit s of Some r \<Rightarrow> url_body r | None \<Rightarrow> s)"
  by pat_completeness auto
termination
  by (relation "measure length") (auto simp: url_unit_shorter)

declare url_body.simps [simp del]

text \<open>\<^verbatim>\<open>://(...)+\<close>: the separator and at least one round of the group.\<close>

definition url_tail :: "ustring \<Rightarrow> ustring option" where
  "url_tail s =
     (case strip_prefix (ustr ''://'') s of
        None \<Rightarrow> None
      | Some b \<Rightarrow> (case url_unit b of None \<Rightarrow> None | Some r \<Rightarrow> Some (url_body r)))"

text \<open>
  A match of \<open>url_pattern\<close> at the start of \<open>s\<close>, as the text left after it.
  \<^verbatim>\<open>[s]?\<close> takes the \<open>s\<close> when there is one and gives it back when the rest fails.
\<close>

definition match_url :: "ustring \<Rightarrow> ustring option" where
  "match_url s =
     (case strip_prefix (ustr ''http'') s of
        None \<Rightarrow> None
      | Some r \<Rightarrow>
          (case r of
             c # r' \<Rightarrow>
               if c = 0x73
               then (case url_tail r' of Some rest \<Rightarrow> Some rest | None \<Rightarrow> url_tail r)
               else url_tail r
           | [] \<Rightarrow> url_tail r))"

lemma strip_prefix_length: "strip_prefix p s = Some r \<Longrightarrow> length s = length p + length r"
  by (induction p s rule: strip_prefix.induct) (auto split: if_splits)

lemma url_body_length: "length (url_body s) \<le> length s"
proof (induction s rule: url_body.induct)
  case (1 s)
  show ?case
  proof (cases "url_unit s")
    case None
    then show ?thesis by (simp add: url_body.simps [of s])
  next
    case (Some r)
    with 1 [OF Some] url_unit_shorter [OF Some] show ?thesis
      by (simp add: url_body.simps [of s])
  qed
qed

lemma url_tail_shorter: "url_tail s = Some r \<Longrightarrow> length r < length s"
proof -
  assume a: "url_tail s = Some r"
  then obtain b where b: "strip_prefix (ustr ''://'') s = Some b"
    by (auto simp: url_tail_def split: option.splits)
  with a obtain u where u: "url_unit b = Some u" and r: "r = url_body u"
    by (auto simp: url_tail_def split: option.splits)
  from strip_prefix_length [OF b] url_unit_shorter [OF u] url_body_length [of u] r
  show ?thesis by simp
qed

lemma match_url_shorter: "match_url s = Some r \<Longrightarrow> length r < length s"
proof -
  assume a: "match_url s = Some r"
  then obtain t where t: "strip_prefix (ustr ''http'') s = Some t"
    by (auto simp: match_url_def split: option.splits)
  from a t have "url_tail t = Some r \<or> (\<exists>c t'. t = c # t' \<and> url_tail t' = Some r)"
    by (auto simp: match_url_def split: option.splits list.splits if_splits)
  with strip_prefix_length [OF t] show ?thesis
    by (auto dest: url_tail_shorter)
qed

text \<open>\<open>url_pattern.sub('', text)\<close>: every match, leftmost first, is replaced by nothing.\<close>

function sub_url :: "ustring \<Rightarrow> ustring" where
  "sub_url [] = []"
| "sub_url (c # cs) =
     (case match_url (c # cs) of
        Some rest \<Rightarrow> sub_url rest
      | None \<Rightarrow> c # sub_url cs)"
  by pat_completeness auto
termination
  by (relation "measure length") (auto dest: match_url_shorter)

text \<open>
  The substitutions on \<^verbatim>\<open>@\w+\<close> and \<^verbatim>\<open>#\w+\<close>: \<open>tag\<close> is the leading character, the
  group \<^verbatim>\<open>\w+\<close> is the longest run of word characters after it, and a match is replaced
  by nothing (\<open>keep = False\<close>, the replacement \<^verbatim>\<open>''\<close>) or by the group
  (\<open>keep = True\<close>, the replacement \<^verbatim>\<open>\1\<close>).
\<close>

function sub_tagged :: "(nat \<Rightarrow> bool) \<Rightarrow> nat \<Rightarrow> bool \<Rightarrow> ustring \<Rightarrow> ustring" where
  "sub_tagged w tag keep [] = []"
| "sub_tagged w tag keep (c # cs) =
     (if c = tag \<and> takeWhile w cs \<noteq> []
      then (if keep then takeWhile w cs else []) @ sub_tagged w tag keep (dropWhile w cs)
      else c # sub_tagged w tag keep cs)"
  by pat_completeness auto
termination
  by (relation "measure (\<lambda>(w, tag, keep, s). length s)")
     (auto simp: less_Suc_eq_le length_dropWhile_le)

text \<open>\<open>emoji_pattern\<close>: one or more characters of the six ranges.\<close>

definition emoji_char :: "nat \<Rightarrow> bool" where
  "emoji_char c =
     (in_range 0x1F600 0x1F64F c \<or> in_range 0x1F300 0x1F5FF c \<or> in_range 0x1F680 0x1F6FF c
      \<or> in_range 0x1F1E0 0x1F1FF c \<or> in_range 0x2702 0x27B0 c \<or> in_range 0x24C2 0x1F251 c)"

function sub_emoji :: "ustring \<Rightarrow> ustring" where
  "sub_emoji [] = []"
| "sub_emoji (c # cs) =
     (if emoji_char c then sub_emoji (dropWhile emoji_char cs) else c # sub_emoji cs)"
  by pat_completeness auto
termination
  by (relation "measure length") (auto simp: less_Suc_eq_le length_dropWhile_le)

text \<open>
  \<open>text.split()\<close>: the maximal runs of characters that are not whitespace. \<open>cur\<close> is the
  run being read.
\<close>

fun split_from :: "ustring \<Rightarrow> ustring \<Rightarrow> ustring list" where
  "split_from cur [] = (if cur = [] then [] else [cur])"
| "split_from cur (c # cs) =
     (if is_space c
      then (if cur = [] then split_from [] cs else cur # split_from [] cs)
      else split_from (cur @ [c]) cs)"

definition split :: "ustring \<Rightarrow> ustring list" where
  "split text = split_from [] text"

text \<open>\<open>' '.join(words)\<close>.\<close>

fun join_space :: "ustring list \<Rightarrow> ustring" where
  "join_space [] = []"
| "join_space [w] = w"
| "join_space (w # v # ws) = w @ 0x20 # join_space (v # ws)"

text \<open>\<open>text.strip()\<close>.\<close>

definition strip :: "ustring \<Rightarrow> ustring" where
  "strip text = rev (dropWhile is_space (rev (dropWhile is_space text)))"

record cleaning_options =
  remove_urls :: bool
  remove_mentions :: bool
  remove_hashtags :: bool
  remove_emojis :: bool
  lowercase :: bool
  normalize_unicode :: bool

text \<open>The defaults of the keyword arguments of \<open>clean_text\<close>.\<close>

definition default_options :: cleaning_options where
  "default_options =
     \<lparr>remove_urls = True, remove_mentions = True, remove_hashtags = False,
      remove_emojis = False, lowercase = False, normalize_unicode = True\<rparr>"

text \<open>
  The hashtag step of \<open>clean_text\<close>: \<open>hashtag_pattern.sub('', text)\<close> when
  \<open>remove_hashtags\<close> is set, \<^verbatim>\<open>re.sub(r'#(\w+)', r'\1', text)\<close> otherwise.
\<close>

definition hashtag_step :: "unicode_lib \<Rightarrow> bool \<Rightarrow> ustring \<Rightarrow> ustring" where
  "hashtag_step lib remove text =
     (if remove then sub_tagged (is_word lib) 0x23 False text
      else sub_tagged (is_word lib) 0x23 True text)"

definition clean_text :: "unicode_lib \<Rightarrow> cleaning_options \<Rightarrow> ustring \<Rightarrow> ustring" where
  "clean_text lib opts text =
     (if text = [] then []
      else
        let text = (if normalize_unicode opts then nfkc lib text else text);
            text = (if remove_urls opts then sub_url text else text);
            text = (if remove_mentions opts then sub_tagged (is_word lib) 0x40 False text
                    else text);
            text = hashtag_step lib (remove_hashtags opts) text;
            text = (if remove_emojis opts then sub_emoji text else text);
            text = (if lowercase opts then lower lib text else text);
            text = join_space (split text)
        in strip text)"

text \<open>
  Two stages of \<open>clean_text\<close> on its way through a text: the text as it stands when the
  hashtag step begins, after the normalisation, the URL removal and the mention removal,
  and the text as it stands when the lower-casing begins, after the hashtag step and the
  emoji removal.
\<close>

definition before_hashtags :: "unicode_lib \<Rightarrow> cleaning_options \<Rightarrow> ustring \<Rightarrow> ustring" where
  "before_hashtags lib opts text =
     (let text = (if normalize_unicode opts then nfkc lib text else text);
          text = (if remove_urls opts then sub_url text else text);
          text = (if remove_mentions opts then sub_tagged (is_word lib) 0x40 False text
                  else text)
      in text)"

definition before_lowercase :: "unicode_lib \<Rightarrow> cleaning_options \<Rightarrow> ustring \<Rightarrow> ustring" where
  "before_lowercase lib opts text =
     (let text = hashtag_step lib (remove_hashtags opts) (before_hashtags lib opts text);
          text = (if remove_emojis opts then sub_emoji text else text)
      in text)"

text \<open>
  The three library functions on the texts of the examples below: ASCII, U+0130 (capital I
  with dot above, whose lower case is U+0069 U+0307) and U+FB01 (the ligature fi, whose
  NFKC form is U+0066 U+0069).
\<close>

definition sample_nfkc :: "ustring \<Rightarrow> ustring" where
  "sample_nfkc s = concat (map (\<lambda>c. if c = 0xFB01 then [0x66, 0x69] else [c]) s)"

definition sample_lower :: "ustring \<Rightarrow> ustring" where
  "sample_lower s =
     concat (map (\<lambda>c. if in_range 0x41 0x5A c then [c + 32]
                        else if c = 0x130 then [0x69, 0x307] else [c]) s)"

definition sample_lib :: unicode_lib where
  "sample_lib =
     \<lparr>nfkc = sample_nfkc, lower = sample_lower, isalnum = (\<lambda>c. c = 0x130 \<or> c = 0xFB01)\<rparr>"

text \<open>
  Three predicates for the proofs about the cleaner: a text without two whitespace
  characters in a row, a word as \<open>split\<close> gives them (not empty, no whitespace in it), and
  a text in which no \<open>tag\<close> is followed by a word character.
\<close>

fun no_double_space :: "ustring \<Rightarrow> bool" where
  "no_double_space (a # b # s) = (\<not> (is_space a \<and> is_space b) \<and> no_double_space (b # s))"
| "no_double_space s = True"

definition split_word :: "ustring \<Rightarrow> bool" where
  "split_word w = (w \<noteq> [] \<and> (\<forall>c\<in>set w. \<not> is_space c))"

fun no_token :: "(nat \<Rightarrow> bool) \<Rightarrow> nat \<Rightarrow> ustring \<Rightarrow> bool" where
  "no_token w tag (a # b # s) = (\<not> (a = tag \<and> w b) \<and> no_token w tag (b # s))"
| "no_token w tag s = True"

section \<open>Inference wrapper (sentiment_model.py, MultilingualSentimentAnalyzer)\<close>

datatype error =
  RuntimeError string
  | TypeError
  | ValueError
  | IndexError

text \<open>What \<open>analyze\<close> and the tokenizer are called with: a \<open>str\<close> or a list of them.\<close>

datatype text_arg = Str ustring | StrList "ustring list"

text \<open>
  The analyzer holds the tokenizer and the model, \<open>None\<close> until \<open>load_model\<close> has run. Both
  come from the \<open>transformers\<close> library: the tokenizer turns its argument into the model's
  input (of a type \<open>'enc\<close> left open), the model turns that into \<open>outputs.logits\<close>, one row
  of numbers per text. Floats are read as real numbers.
\<close>

record 'enc analyzer =
  tokenizer :: "(text_arg \<Rightarrow> 'enc) option"
  model :: "('enc \<Rightarrow> real list list) option"

definition labels :: "string list" where
  "labels = [''negative'', ''neutral'', ''positive'']"

definition new_analyzer :: "'enc analyzer" where
  "new_analyzer = \<lparr>tokenizer = None, model = None\<rparr>"

text \<open>\<open>load_model\<close>, given what the two \<open>from_pretrained\<close> calls return.\<close>

definition load_model ::
  "(text_arg \<Rightarrow> 'enc) \<Rightarrow> ('enc \<Rightarrow> real list list) \<Rightarrow> 'enc analyzer \<Rightarrow> 'enc analyzer" where
  "load_model pretrained_tokenizer pretrained_model a =
     a\<lparr>tokenizer := Some pretrained_tokenizer, model := Some pretrained_model\<rparr>"

text \<open>
  The dictionary an analysis returns, with its four keys. The key \<open>text\<close> is the field
  \<open>text_field\<close>; \<open>scores\<close> keeps the order in which the dictionary is filled.
\<close>

record result =
  text_field :: ustring
  sentiment :: string
  confidence :: real
  scores :: "(string \<times> real) list"

text \<open>\<open>torch.nn.functional.softmax(_, dim=-1)\<close> on one row.\<close>

definition softmax :: "real list \<Rightarrow> real list" where
  "softmax xs = map (\<lambda>x. exp x / sum_list (map exp xs)) xs"

text \<open>
  \<open>np.argmax\<close> (the first index of the largest entry) and \<open>np.max\<close>; both raise
  \<open>ValueError\<close> on an empty row.
\<close>

definition np_argmax :: "real list \<Rightarrow> error + nat" where
  "np_argmax xs =
     (if xs = [] then Inl ValueError
      else Inr (length (takeWhile (\<lambda>x. x \<noteq> Max (set xs)) xs)))"

definition np_max :: "real list \<Rightarrow> error + real" where
  "np_max xs = (if xs = [] then Inl ValueError else Inr (Max (set xs)))"

text \<open>\<open>xs[i]\<close> for an index that is not negative.\<close>

definition py_index :: "'a list \<Rightarrow> nat \<Rightarrow> error + 'a" where
  "py_index xs i = (if i < length xs then Inr (xs ! i) else Inl IndexError)"

text \<open>
  The shaping of one result from the row \<open>scores_np\<close> of the text, written out twice in the
  source with the same expressions (in \<open>_analyze_single\<close> and in the inner loop of
  \<open>analyze_batch\<close>).
\<close>

definition shape_result :: "ustring \<Rightarrow> real list \<Rightarrow> error + result" where
  "shape_result txt scores_np =
     (case np_argmax scores_np of
        Inl e \<Rightarrow> Inl e
      | Inr i \<Rightarrow>
          (case py_index labels i of
             Inl e \<Rightarrow> Inl e
           | Inr predicted_label \<Rightarrow>
               (case np_max scores_np of
                  Inl e \<Rightarrow> Inl e
                | Inr conf \<Rightarrow>
                    Inr \<lparr>text_field = txt, sentiment = predicted_label, confidence = conf,
                         scores = zip labels scores_np\<rparr>)))"

text \<open>
  \<open>_analyze_single\<close>. Calling \<open>self.tokenizer\<close> or \<open>self.model\<close> while it is \<open>None\<close>
  raises \<open>TypeError\<close>; \<open>scores.cpu().numpy()[0]\<close> is the first row.
\<close>

definition analyze_single :: "'enc analyzer \<Rightarrow> ustring \<Rightarrow> error + result" where
  "analyze_single a txt =
     (case tokenizer a of
        None \<Rightarrow> Inl TypeError
      | Some tok \<Rightarrow>
          (case model a of
             None \<Rightarrow> Inl TypeError
           | Some mdl \<Rightarrow>
               (case py_index (map softmax (mdl (tok (Str txt)))) 0 of
                  Inl e \<Rightarrow> Inl e
                | Inr scores_np \<Rightarrow> shape_result txt scores_np)))"

text \<open>A list comprehension over \<open>f\<close>: the first exception ends it.\<close>

fun map_results :: "('a \<Rightarrow> error + 'b) \<Rightarrow> 'a list \<Rightarrow> error + 'b list" where
  "map_results f [] = Inr []"
| "map_results f (x # xs) =
     (case f x of
        Inl e \<Rightarrow> Inl e
      | Inr r \<Rightarrow> (case map_results f xs of Inl e \<Rightarrow> Inl e | Inr rs \<Rightarrow> Inr (r # rs)))"

datatype analysis = One result | Many "result list"

definition analyze :: "'enc analyzer \<Rightarrow> text_arg \<Rightarrow> error + analysis" where
  "analyze a arg =
     (if model a = None then Inl (RuntimeError ''Model not loaded. Call load_model() first.'')
      else
        (case arg of
           Str txt \<Rightarrow> (case analyze_single a txt of Inl e \<Rightarrow> Inl e | Inr r \<Rightarrow> Inr (One r))
         | StrList txts \<Rightarrow>
             (case map_results (analyze_single a) txts of
                Inl e \<Rightarrow> Inl e
              | Inr rs \<Rightarrow> Inr (Many rs))))"

text \<open>The inner loop of \<open>analyze_batch\<close>, \<open>for j, text in enumerate(batch)\<close>, from \<open>j\<close> on.\<close>

fun batch_results :: "real list list \<Rightarrow> nat \<Rightarrow> ustring list \<Rightarrow> error + result list" where
  "batch_results scores_np j [] = Inr []"
| "batch_results scores_np j (txt # rest) =
     (case py_index scores_np j of
        Inl e \<Rightarrow> Inl e
      | Inr row \<Rightarrow>
          (case shape_result txt row of
             Inl e \<Rightarrow> Inl e
           | Inr r \<Rightarrow>
               (case batch_results scores_np (Suc j) rest of
                  Inl e \<Rightarrow> Inl e
                | Inr rs \<Rightarrow> Inr (r # rs))))"

text \<open>
  The outer loop, \<open>for i in range(0, len(texts), batch_size)\<close> with a positive step, from
  \<open>i\<close> on; \<open>results\<close> is the list built so far.
\<close>

function analyze_batch_from ::
  "'enc analyzer \<Rightarrow> ustring list \<Rightarrow> nat \<Rightarrow> nat \<Rightarrow> result list \<Rightarrow> error + result list" where
  "analyze_batch_from a texts batch_size i results =
     (if i < length texts \<and> 0 < batch_size
      then
        let batch = take batch_size (drop i texts)
        in (case tokenizer a of
              None \<Rightarrow> Inl TypeError
            | Some tok \<Rightarrow>
                (case model a of
                   None \<Rightarrow> Inl TypeError
                 | Some mdl \<Rightarrow>
                     (case batch_results (map softmax (mdl (tok (StrList batch)))) 0 batch of
                        Inl e \<Rightarrow> Inl e
                      | Inr rs \<Rightarrow>
                          analyze_batch_from a texts batch_size (i + batch_size) (results @ rs))))
      else Inr results)"
  by pat_completeness auto
termination
  by (relation "measure (\<lambda>(a, texts, batch_size, i, results). length texts - i)") auto

declare analyze_batch_from.simps [simp del]

text \<open>
  \<open>analyze_batch\<close>. \<open>range\<close> raises \<open>ValueError\<close> on the step 0 and is empty on a negative
  step.
\<close>

definition analyze_batch :: "'enc analyzer \<Rightarrow> ustring list \<Rightarrow> int \<Rightarrow> error + result list" where
  "analyze_batch a texts batch_size =
     (if batch_size = 0 then Inl ValueError
      else if batch_size < 0 then Inr []
      else analyze_batch_from a texts (nat batch_size) 0 [])"

text \<open>
  A tokenizer and a model for the examples below. The tokenizer gives one row of code
  points per text, a batch padded with 0 to the longest row; the model looks at the
  entries of a row that are not padding, and favours the first label when their number is
  even and the last when it is odd.
\<close>

definition pad_to :: "nat \<Rightarrow> ustring \<Rightarrow> ustring" where
  "pad_to n row = row @ replicate (n - length row) 0"

fun sample_tokenizer :: "text_arg \<Rightarrow> nat list list" where
  "sample_tokenizer (Str txt) = [txt]"
| "sample_tokenizer (StrList txts) = map (pad_to (fold max (map length txts) 0)) txts"

definition sample_logits :: "ustring \<Rightarrow> real list" where
  "sample_logits row =
     (let n = length (filter (\<lambda>c. c \<noteq> 0) row)
      in if even n then [ln 2, 0, 0] else [0, 0, ln 2])"

definition sample_model :: "nat list list \<Rightarrow> real list list" where
  "sample_model enc = map sample_logits enc"

section \<open>Properties of the language heuristic\<close>

lemmas char_class_defs = is_japanese_def is_chinese_def is_korean_def is_latin_def in_range_def

lemma count_chars_none: "\<forall>c\<in>set s. \<not> P c \<Longrightarrow> count_chars P s = 0"
  by (simp add: count_chars_def)

lemma count_chars_all: "\<forall>c\<in>set s. P c \<Longrightarrow> count_chars P s = length s"
  by (simp add: count_chars_def)

lemma chinese_le_japanese: "count_chars is_chinese s \<le> count_chars is_japanese s"
  unfolding count_chars_def
  by (induction s) (auto simp: is_chinese_def is_japanese_def)

text \<open>
  Claim C8. The heuristic detector returns \<open>en\<close> (with confidence 1) on every non-empty text
  made only of the letters a to z and A to Z, \<open>ko\<close> (with confidence 1) on every non-empty
  text made only of characters of the Hangul range U+AC00 to U+D7AF, and
  \<open>(unknown, 0.0)\<close> whenever the four counts are all zero, the empty text included.
\<close>

theorem heuristic_latin_hangul_unknown:
  "(s \<noteq> [] \<and> (\<forall>c\<in>set s. is_latin c) \<longrightarrow> simple_language_detect s = (''en'', 1))
   \<and> (s \<noteq> [] \<and> (\<forall>c\<in>set s. is_korean c) \<longrightarrow> simple_language_detect s = (''ko'', 1))
   \<and> (count_chars is_japanese s = 0 \<and> count_chars is_chinese s = 0
        \<and> count_chars is_korean s = 0 \<and> count_chars is_latin s = 0
        \<longrightarrow> simple_language_detect s = (''unknown'', 0))
   \<and> simple_language_detect [] = (''unknown'', 0)"
proof (intro conjI impI)
  assume a: "s \<noteq> [] \<and> (\<forall>c\<in>set s. is_latin c)"
  then have l: "count_chars is_latin s = length s" by (simp add: count_chars_all)
  have j: "count_chars is_japanese s = 0"
    using a by (intro count_chars_none) (auto simp: char_class_defs)
  have c: "count_chars is_chinese s = 0"
    using a by (intro count_chars_none) (auto simp: char_class_defs)
  have k: "count_chars is_korean s = 0"
    using a by (intro count_chars_none) (auto simp: char_class_defs)
  show "simple_language_detect s = (''en'', 1)"
    using a by (simp add: simple_language_detect_def l j c k)
next
  assume a: "s \<noteq> [] \<and> (\<forall>c\<in>set s. is_korean c)"
  then have k: "count_chars is_korean s = length s" by (simp add: count_chars_all)
  have j: "count_chars is_japanese s = 0"
    using a by (intro count_chars_none) (auto simp: char_class_defs)
  have c: "count_chars is_chinese s = 0"
    using a by (intro count_chars_none) (auto simp: char_class_defs)
  have l: "count_chars is_latin s = 0"
    using a by (intro count_chars_none) (auto simp: char_class_defs)
  show "simple_language_detect s = (''ko'', 1)"
    using a by (simp add: simple_language_detect_def l j c k)
next
  assume "count_chars is_japanese s = 0 \<and> count_chars is_chinese s = 0
        \<and> count_chars is_korean s = 0 \<and> count_chars is_latin s = 0"
  then show "simple_language_detect s = (''unknown'', 0)"
    by (simp add: simple_language_detect_def)
next
  show "simple_language_detect [] = (''unknown'', 0)"
    by (simp add: simple_language_detect_def count_chars_def)
qed

text \<open>
  The theorem of C8 at \<open>Hello\<close>, at two Hangul syllables, and at a text of digits, spaces
  and punctuation.
\<close>

theorem heuristic_latin_hangul_unknown_witness:
  "simple_language_detect (ustr ''Hello'') = (''en'', 1)
   \<and> simple_language_detect [0xD55C, 0xAE00] = (''ko'', 1)
   \<and> simple_language_detect (ustr ''12 + 3!'') = (''unknown'', 0)"
proof -
  have en: "ustr ''Hello'' \<noteq> [] \<and> (\<forall>c\<in>set (ustr ''Hello''). is_latin c)"
    by (simp add: ustr_def char_class_defs)
  have ko: "[0xD55C, 0xAE00] \<noteq> [] \<and> (\<forall>c\<in>set [0xD55C, 0xAE00]. is_korean c)"
    by (simp add: char_class_defs)
  have un: "count_chars is_japanese (ustr ''12 + 3!'') = 0
      \<and> count_chars is_chinese (ustr ''12 + 3!'') = 0
      \<and> count_chars is_korean (ustr ''12 + 3!'') = 0
      \<and> count_chars is_latin (ustr ''12 + 3!'') = 0"
    by (simp add: ustr_def count_chars_def char_class_defs)
  from heuristic_latin_hangul_unknown [of "ustr ''Hello''"] en
    heuristic_latin_hangul_unknown [of "[0xD55C, 0xAE00]"] ko
    heuristic_latin_hangul_unknown [of "ustr ''12 + 3!''"] un
  show ?thesis by blast
qed

text \<open>
  Claim C9. On every text the Japanese count is at least the Chinese count, the heuristic
  detector never returns the code \<open>zh\<close>, and its code is one of \<open>ja\<close>, \<open>ko\<close>, \<open>en\<close> and
  \<open>unknown\<close>.
\<close>

theorem heuristic_never_zh:
  "count_chars is_chinese s \<le> count_chars is_japanese s
   \<and> fst (simple_language_detect s) \<noteq> ''zh''
   \<and> fst (simple_language_detect s) \<in> {''ja'', ''ko'', ''en'', ''unknown''}"
  using chinese_le_japanese [of s]
  by (auto simp: simple_language_detect_def Let_def)

text \<open>
  Claim C5, as stated, fails: when the external detector raises an exception that is not
  an \<open>ImportError\<close>, \<open>detect_language\<close> returns \<open>(unknown, 0.0)\<close> and not the heuristic's
  result, which on \<open>hello\<close> is \<open>(en, 1.0)\<close>.
\<close>

theorem detect_language_raise_counterexample:
  "detect_language raising_detector (ustr ''hello'') = (''unknown'', 0)
   \<and> simple_language_detect (ustr ''hello'') = (''en'', 1)
   \<and> detect_language raising_detector (ustr ''hello'') \<noteq> simple_language_detect (ustr ''hello'')"
  by (simp add: detect_language_def raising_detector_def simple_language_detect_def ustr_def
      count_chars_def char_class_defs)

text \<open>
  Claim C5, amended. When the import of the external detector fails, \<open>detect_language\<close>
  returns the heuristic's (code, confidence) result, for every text; when the detector
  raises any other exception, \<open>detect_language\<close> returns \<open>(unknown, 0.0)\<close>.
\<close>

theorem detect_language_fallback:
  "(detect_langs s = ImportError \<longrightarrow> detect_language detect_langs s = simple_language_detect s)
   \<and> (detect_langs s = OtherException \<longrightarrow> detect_language detect_langs s = (''unknown'', 0))"
  by (simp add: detect_language_def)

text \<open>The amended C5 at \<open>hello\<close>, with a detector that is missing and one that raises.\<close>

theorem detect_language_fallback_witness:
  "detect_language missing_detector (ustr ''hello'') = (''en'', 1)
   \<and> detect_language raising_detector (ustr ''hello'') = (''unknown'', 0)"
proof -
  have m: "missing_detector (ustr ''hello'') = ImportError" by (simp add: missing_detector_def)
  have r: "raising_detector (ustr ''hello'') = OtherException" by (simp add: raising_detector_def)
  have h: "simple_language_detect (ustr ''hello'') = (''en'', 1)"
    by (simp add: simple_language_detect_def ustr_def count_chars_def char_class_defs)
  from detect_language_fallback [of missing_detector "ustr ''hello''"] m h
    detect_language_fallback [of raising_detector "ustr ''hello''"] r
  show ?thesis by simp
qed

section \<open>Properties of the inference wrapper\<close>

lemma shape_result_text: "shape_result t row = Inr r \<Longrightarrow> text_field r = t"
  by (auto simp: shape_result_def split: sum.splits)

lemma analyze_single_text: "analyze_single a t = Inr r \<Longrightarrow> text_field r = t"
  by (auto simp: analyze_single_def split: option.splits sum.splits dest: shape_result_text)

lemma map_results_text:
  "map_results f ts = Inr rs \<Longrightarrow> (\<And>t r. f t = Inr r \<Longrightarrow> text_field r = t) \<Longrightarrow> map text_field rs = ts"
proof (induction ts arbitrary: rs)
  case Nil
  then show ?case by simp
next
  case (Cons t ts)
  then show ?case by (auto split: sum.splits)
qed

lemma batch_results_text: "batch_results sc j b = Inr rs \<Longrightarrow> map text_field rs = b"
proof (induction b arbitrary: j rs)
  case Nil
  then show ?case by simp
next
  case (Cons t b)
  then show ?case by (auto split: sum.splits dest: shape_result_text)
qed

lemma analyze_batch_from_text:
  "analyze_batch_from a ts k i acc = Inr rs \<Longrightarrow> map text_field acc = take i ts \<Longrightarrow> 0 < k
   \<Longrightarrow> map text_field rs = ts"
proof (induction a ts k i acc rule: analyze_batch_from.induct)
  case (1 a ts k i acc)
  show ?case
  proof (cases "i < length ts")
    case False
    with "1.prems" show ?thesis by (simp add: analyze_batch_from.simps [of a ts k i acc])
  next
    case True
    from "1.prems"(1) True "1.prems"(3) obtain tok mdl rs' where
      tok: "tokenizer a = Some tok" and mdl: "model a = Some mdl"
      and br: "batch_results (map softmax (mdl (tok (StrList (take k (drop i ts)))))) 0 (take k (drop i ts)) = Inr rs'"
      and rec: "analyze_batch_from a ts k (i + k) (acc @ rs') = Inr rs"
      by (auto simp: analyze_batch_from.simps [of a ts k i acc] Let_def split: option.splits sum.splits)
    have "map text_field (acc @ rs') = take (i + k) ts"
      using "1.prems"(2) batch_results_text [OF br] by (simp add: take_add)
    with "1.IH" [OF _ refl tok mdl br rec] True "1.prems"(3) show ?thesis by simp
  qed
qed

lemma map_results_append:
  "map_results f (xs @ ys) =
     (case map_results f xs of
        Inl e \<Rightarrow> Inl e
      | Inr rs \<Rightarrow> (case map_results f ys of Inl e \<Rightarrow> Inl e | Inr rs' \<Rightarrow> Inr (rs @ rs')))"
  by (induction xs) (auto split: sum.splits)

lemma batch_results_rows:
  "batch_results (map g (pre @ b)) (length pre) b = map_results (\<lambda>t. shape_result t (g t)) b"
proof (induction b arbitrary: pre)
  case Nil
  show ?case by simp
next
  case (Cons t b)
  have "batch_results (map g ((pre @ [t]) @ b)) (length (pre @ [t])) b
        = map_results (\<lambda>t. shape_result t (g t)) b"
    by (rule Cons.IH)
  then show ?case
    by (simp add: py_index_def nth_append split: sum.splits)
qed

lemma batch_results_map:
  "batch_results (map g b) 0 b = map_results (\<lambda>t. shape_result t (g t)) b"
  using batch_results_rows [of g "[]" b] by simp

lemma analyze_single_black_box:
  assumes "tokenizer a = Some tok" "model a = Some mdl" "mdl (tok (Str t)) = [L t]"
  shows "analyze_single a t = shape_result t (softmax (L t))"
  using assms by (simp add: analyze_single_def py_index_def)

lemma analyze_batch_from_black_box:
  assumes tok: "tokenizer a = Some tok" and mdl: "model a = Some mdl"
    and batch: "\<And>b. b \<noteq> [] \<Longrightarrow> mdl (tok (StrList b)) = map L b"
    and k: "0 < k"
  shows "analyze_batch_from a ts k i acc =
     (case map_results (\<lambda>t. shape_result t (softmax (L t))) (drop i ts) of
        Inl e \<Rightarrow> Inl e
      | Inr rs \<Rightarrow> Inr (acc @ rs))"
  using tok mdl k
proof (induction a ts k i acc rule: analyze_batch_from.induct)
  case (1 a ts k i acc)
  show ?case
  proof (cases "i < length ts")
    case False
    then show ?thesis by (simp add: analyze_batch_from.simps [of a ts k i acc])
  next
    case True
    let ?b = "take k (drop i ts)"
    let ?f = "\<lambda>t. shape_result t (softmax (L t))"
    from True "1.prems"(3) have ne: "?b \<noteq> []" by simp
    have sc: "map softmax (mdl (tok (StrList ?b))) = map (\<lambda>t. softmax (L t)) ?b"
      by (simp add: batch [OF ne])
    have br: "batch_results (map softmax (mdl (tok (StrList ?b)))) 0 ?b = map_results ?f ?b"
      unfolding sc by (rule batch_results_map)
    have split: "drop i ts = ?b @ drop (i + k) ts"
      by (metis append_take_drop_id drop_drop add.commute)
    show ?thesis
    proof (cases "map_results ?f ?b")
      case (Inl e)
      then show ?thesis
        using True "1.prems" br
        by (subst split) (simp add: analyze_batch_from.simps [of a ts k i acc] map_results_append)
    next
      case (Inr rs')
      have "analyze_batch_from a ts k (i + k) (acc @ rs') =
         (case map_results ?f (drop (i + k) ts) of Inl e \<Rightarrow> Inl e | Inr rs \<Rightarrow> Inr ((acc @ rs') @ rs))"
        using True "1.prems" br Inr
        by (intro "1.IH" [of ?b tok mdl rs']) auto
      then show ?thesis
        using True "1.prems" br Inr
        by (subst split)
          (simp add: analyze_batch_from.simps [of a ts k i acc] map_results_append split: sum.splits)
    qed
  qed
qed

lemma sum_list_exp_pos: "xs \<noteq> [] \<Longrightarrow> 0 < sum_list (map exp (xs :: real list))"
proof (induction xs)
  case Nil
  then show ?case by simp
next
  case (Cons x xs)
  show ?case
  proof (cases "xs = []")
    case True
    then show ?thesis by simp
  next
    case False
    with Cons.IH have "0 < sum_list (map exp xs)" by simp
    then show ?thesis by (simp add: add_pos_pos)
  qed
qed

lemma sum_list_divide: "sum_list (map (\<lambda>x. f x / c) xs) = sum_list (map f xs) / (c :: real)"
  by (induction xs) (simp_all add: add_divide_distrib)

lemma softmax_length: "length (softmax xs) = length xs"
  by (simp add: softmax_def)

lemma softmax_sum: "xs \<noteq> [] \<Longrightarrow> sum_list (softmax xs) = 1"
  using sum_list_exp_pos [of xs] by (simp add: softmax_def sum_list_divide)

lemma first_max_less: 
  assumes "xs \<noteq> []"
  shows "length (takeWhile (\<lambda>x. x \<noteq> Max (set xs)) xs) < length (xs :: real list)"
proof -
  have "Max (set xs) \<in> set xs" using assms by (intro Max_in) auto
  then have "takeWhile (\<lambda>x. x \<noteq> Max (set xs)) xs \<noteq> xs"
    by auto
  moreover have "length (takeWhile (\<lambda>x. x \<noteq> Max (set xs)) xs) \<le> length xs"
    by (rule length_takeWhile_le)
  ultimately show ?thesis
    by (metis le_neq_implies_less takeWhile_eq_take take_all order_refl)
qed

lemma first_max_is_max:
  assumes "xs \<noteq> []"
  shows "(xs :: real list) ! length (takeWhile (\<lambda>x. x \<noteq> Max (set xs)) xs) = Max (set xs)"
  using nth_length_takeWhile [OF first_max_less [OF assms]] by simp

lemma before_first_max:
  assumes "j < length (takeWhile (\<lambda>x. x \<noteq> Max (set xs)) xs)"
  shows "(xs :: real list) ! j < Max (set xs)"
proof -
  let ?P = "\<lambda>x. x \<noteq> Max (set xs)"
  have "takeWhile ?P xs ! j \<in> set (takeWhile ?P xs)" using assms by simp
  then have ne: "xs ! j \<noteq> Max (set xs)"
    using assms by (auto simp: takeWhile_nth dest: set_takeWhileD)
  have "j < length xs" using assms length_takeWhile_le [of ?P xs] by simp
  then have "xs ! j \<le> Max (set xs)" by (intro Max_ge) auto
  with ne show ?thesis by simp
qed

lemma shape_result_invariant:
  assumes sr: "shape_result t (softmax row) = Inr r" and len: "length row = 3"
  shows "map fst (scores r) = labels
     \<and> sum_list (map snd (scores r)) = 1
     \<and> confidence r = Max (set (map snd (scores r)))
     \<and> (\<exists>i<3. sentiment r = labels ! i \<and> map snd (scores r) ! i = confidence r
            \<and> (\<forall>j<i. map snd (scores r) ! j < confidence r))
     \<and> sentiment r \<in> set labels"
proof -
  let ?sm = "softmax row"
  let ?i = "length (takeWhile (\<lambda>x. x \<noteq> Max (set ?sm)) ?sm)"
  have ne: "?sm \<noteq> []" and l3: "length ?sm = 3" using len by (auto simp: softmax_def)
  have ll: "length labels = 3" by (simp add: labels_def)
  have i3: "?i < 3" using first_max_less [OF ne] l3 by simp
  from sr ne i3 ll have r: "r = \<lparr>text_field = t, sentiment = labels ! ?i, confidence = Max (set ?sm),
       scores = zip labels ?sm\<rparr>"
    by (simp add: shape_result_def np_argmax_def np_max_def py_index_def)
  have snd: "map snd (scores r) = ?sm" and fst: "map fst (scores r) = labels"
    using l3 ll by (simp_all add: r)
  have row_ne: "row \<noteq> []" using len by auto
  have "\<forall>j<?i. ?sm ! j < Max (set ?sm)" by (simp add: before_first_max)
  then have ex: "\<exists>i<3. sentiment r = labels ! i \<and> map snd (scores r) ! i = confidence r
            \<and> (\<forall>j<i. map snd (scores r) ! j < confidence r)"
    unfolding snd using i3 first_max_is_max [OF ne] by (intro exI [of _ ?i]) (simp add: r)
  have "sentiment r \<in> set labels" using i3 ll by (simp add: r)
  with fst snd ex softmax_sum [OF row_ne] show ?thesis by (simp add: r)
qed

lemma map_results_all:
  "map_results f ts = Inr rs \<Longrightarrow> (\<And>t r. f t = Inr r \<Longrightarrow> Q r) \<Longrightarrow> \<forall>r\<in>set rs. Q r"
proof (induction ts arbitrary: rs)
  case Nil
  then show ?case by simp
next
  case (Cons t ts)
  then show ?case by (auto split: sum.splits)
qed

lemma map_results_nth:
  "map_results f ts = Inr rs \<Longrightarrow> length rs = length ts \<and> (\<forall>i<length ts. f (ts ! i) = Inr (rs ! i))"
proof (induction ts arbitrary: rs)
  case Nil
  then show ?case by simp
next
  case (Cons t ts)
  from Cons.prems obtain r rs' where r: "f t = Inr r" and rs': "map_results f ts = Inr rs'"
    and rs: "rs = r # rs'"
    by (auto split: sum.splits)
  from Cons.IH [OF rs'] r rs show ?case
    by (auto simp: nth_Cons split: nat.splits)
qed

lemma map_results_returns:
  "(\<And>t. t \<in> set ts \<Longrightarrow> \<exists>r. f t = Inr r) \<Longrightarrow> \<exists>rs. map_results f ts = Inr rs"
proof (induction ts)
  case Nil
  show ?case by simp
next
  case (Cons t ts)
  then obtain r rs where "f t = Inr r" "map_results f ts = Inr rs"
    by (metis list.set_intros(1) list.set_intros(2))
  then show ?case by simp
qed

lemma shape_result_returns:
  assumes "length row = 3"
  shows "\<exists>r. shape_result t (softmax row) = Inr r"
proof -
  let ?sm = "softmax row"
  have ne: "?sm \<noteq> []" and l3: "length ?sm = 3" using assms by (auto simp: softmax_def)
  from first_max_less [OF ne] l3 ne show ?thesis
    by (simp add: shape_result_def np_argmax_def np_max_def py_index_def labels_def)
qed

lemma batch_results_all:
  "batch_results sc j b = Inr rs
   \<Longrightarrow> (\<And>t row r. row \<in> set sc \<Longrightarrow> shape_result t row = Inr r \<Longrightarrow> Q r)
   \<Longrightarrow> \<forall>r\<in>set rs. Q r"
proof (induction b arbitrary: j rs)
  case Nil
  then show ?case by simp
next
  case (Cons t b)
  from Cons.prems(1) obtain row r rs' where row: "py_index sc j = Inr row"
    and r: "shape_result t row = Inr r" and rs': "batch_results sc (Suc j) b = Inr rs'"
    and rs: "rs = r # rs'"
    by (auto split: sum.splits)
  from row have "row \<in> set sc" by (auto simp: py_index_def split: if_splits)
  with r Cons.prems(2) have "Q r" by blast
  moreover have "\<forall>r\<in>set rs'. Q r" using rs' Cons.prems(2) by (rule Cons.IH)
  ultimately show ?case using rs by simp
qed

lemma analyze_batch_from_all:
  "analyze_batch_from a ts k i acc = Inr rs \<Longrightarrow> \<forall>r\<in>set acc. Q r
   \<Longrightarrow> (\<And>mdl enc t row r. model a = Some mdl \<Longrightarrow> row \<in> set (mdl enc)
          \<Longrightarrow> shape_result t (softmax row) = Inr r \<Longrightarrow> Q r)
   \<Longrightarrow> \<forall>r\<in>set rs. Q r"
proof (induction a ts k i acc rule: analyze_batch_from.induct)
  case (1 a ts k i acc)
  show ?case
  proof (cases "i < length ts \<and> 0 < k")
    case False
    with "1.prems"(1,2) show ?thesis by (simp add: analyze_batch_from.simps [of a ts k i acc])
  next
    case True
    let ?b = "take k (drop i ts)"
    from "1.prems"(1) True obtain tok mdl rs' where
      tok: "tokenizer a = Some tok" and mdl: "model a = Some mdl"
      and br: "batch_results (map softmax (mdl (tok (StrList ?b)))) 0 ?b = Inr rs'"
      and rec: "analyze_batch_from a ts k (i + k) (acc @ rs') = Inr rs"
      by (auto simp: analyze_batch_from.simps [of a ts k i acc] Let_def split: option.splits sum.splits)
    have "\<forall>r\<in>set rs'. Q r"
      using br
    proof (rule batch_results_all)
      fix t row r
      assume "row \<in> set (map softmax (mdl (tok (StrList ?b))))" and "shape_result t row = Inr r"
      then show "Q r" using "1.prems"(3) [OF mdl] by auto
    qed
    with "1.prems"(2) have acc: "\<forall>r\<in>set (acc @ rs'). Q r" by auto
    from True show ?thesis
      by (intro "1.IH" [OF True refl tok mdl br rec acc]) (rule "1.prems"(3))
  qed
qed

lemma analyze_single_row:
  assumes "analyze_single a t = Inr r" and "model a = Some mdl"
  shows "\<exists>enc row. row \<in> set (mdl enc) \<and> shape_result t (softmax row) = Inr r"
proof -
  from assms obtain tok where tok: "tokenizer a = Some tok"
    by (auto simp: analyze_single_def split: option.splits)
  let ?rows = "mdl (tok (Str t))"
  from assms tok have ne: "?rows \<noteq> []" and "shape_result t (softmax (?rows ! 0)) = Inr r"
    by (auto simp: analyze_single_def py_index_def split: if_splits)
  moreover from ne have "?rows ! 0 \<in> set ?rows" by simp
  ultimately show ?thesis by blast
qed

text \<open>
  Claim C1 holds for \<open>analyze\<close> and fails for \<open>analyze_batch\<close>, which has no check of its
  own: on an analyzer whose model was never loaded, \<open>analyze\<close> raises the
  \<open>RuntimeError\<close> "Model not loaded" on every argument, while \<open>analyze_batch\<close> raises a
  \<open>TypeError\<close> on the list of the one text \<open>hello\<close> and returns the empty list, with no
  error, on the empty list, and on no list and batch size does it raise a \<open>RuntimeError\<close>.
\<close>

theorem analyze_batch_unloaded:
  "analyze (new_analyzer :: 'enc analyzer) arg
     = Inl (RuntimeError ''Model not loaded. Call load_model() first.'')
   \<and> analyze_batch (new_analyzer :: 'enc analyzer) [ustr ''hello''] 32 = Inl TypeError
   \<and> analyze_batch (new_analyzer :: 'enc analyzer) [] 32 = Inr []
   \<and> analyze_batch (new_analyzer :: 'enc analyzer) texts batch_size \<noteq> Inl (RuntimeError msg)"
proof -
  have "analyze_batch (new_analyzer :: 'enc analyzer) texts batch_size \<noteq> Inl (RuntimeError msg)"
    by (cases texts)
      (simp_all add: analyze_batch_def analyze_batch_from.simps new_analyzer_def)
  then show ?thesis
    by (simp add: analyze_def analyze_batch_def analyze_batch_from.simps new_analyzer_def)
qed

text \<open>
  Claim C10. Every result that \<open>analyze\<close> or \<open>analyze_batch\<close> returns carries the input
  text unchanged: the result for a single text has that text, and the results for a list
  have the texts of the list, in order (with a positive batch size; with a negative one
  \<open>analyze_batch\<close> returns no result at all).
\<close>

theorem result_text_is_input:
  "(analyze a (Str t) = Inr (One r) \<longrightarrow> text_field r = t)
   \<and> (analyze a (StrList ts) = Inr (Many rs) \<longrightarrow> map text_field rs = ts)
   \<and> (0 < k \<and> analyze_batch a ts k = Inr rs \<longrightarrow> map text_field rs = ts)
   \<and> (k < 0 \<and> analyze_batch a ts k = Inr rs \<longrightarrow> rs = [])"
proof (intro conjI impI)
  assume "analyze a (Str t) = Inr (One r)"
  then show "text_field r = t"
    by (auto simp: analyze_def split: if_splits sum.splits dest: analyze_single_text)
next
  assume "analyze a (StrList ts) = Inr (Many rs)"
  then have "map_results (analyze_single a) ts = Inr rs"
    by (auto simp: analyze_def split: if_splits sum.splits)
  then show "map text_field rs = ts"
    by (rule map_results_text) (rule analyze_single_text)
next
  assume "0 < k \<and> analyze_batch a ts k = Inr rs"
  then have "analyze_batch_from a ts (nat k) 0 [] = Inr rs" and "0 < nat k"
    by (auto simp: analyze_batch_def split: if_splits)
  then show "map text_field rs = ts"
    by (intro analyze_batch_from_text [of a ts "nat k" 0 "[]" rs]) auto
next
  assume "k < 0 \<and> analyze_batch a ts k = Inr rs"
  then show "rs = []" by (auto simp: analyze_batch_def)
qed

text \<open>
  The theorem of C10 on the sample tokenizer and model: a single text, and a batch run of
  three texts in batches of two.
\<close>

theorem result_text_is_input_witness:
  "(\<exists>r. analyze (load_model sample_tokenizer sample_model new_analyzer) (Str (ustr ''ok''))
          = Inr (One r) \<and> text_field r = ustr ''ok'')
   \<and> (\<exists>rs. analyze_batch (load_model sample_tokenizer sample_model new_analyzer)
          [ustr ''ok'', ustr ''bad'', ustr ''a''] 2 = Inr rs
        \<and> map text_field rs = [ustr ''ok'', ustr ''bad'', ustr ''a''])"
proof -
  let ?a = "load_model sample_tokenizer sample_model new_analyzer"
  have sm: "softmax [ln 2, 0, 0] = [1/2, 1/4, 1/4]" "softmax [0, 0, ln 2] = [1/4, 1/4, 1/2]"
    by (simp_all add: softmax_def)
  have sh: "\<And>t. \<exists>r. shape_result t [1/2, 1/4, 1/4] = Inr r"
    "\<And>t. \<exists>r. shape_result t [1/4, 1/4, 1/2] = Inr r"
    by (simp_all add: shape_result_def np_argmax_def np_max_def py_index_def labels_def)
  from sh(1) [of "ustr ''ok''"] obtain r where
    r: "analyze ?a (Str (ustr ''ok'')) = Inr (One r)"
    by (auto simp: analyze_def analyze_single_def load_model_def new_analyzer_def sample_model_def
        sample_logits_def py_index_def sm ustr_def)
  from sh(1) [of "ustr ''ok''"] sh(2) [of "ustr ''bad''"] sh(2) [of "ustr ''a''"]
  obtain rs where
    rs: "analyze_batch ?a [ustr ''ok'', ustr ''bad'', ustr ''a''] 2 = Inr rs"
    by (auto simp: analyze_batch_def analyze_batch_from.simps load_model_def new_analyzer_def
        sample_model_def sample_logits_def py_index_def sm ustr_def pad_to_def)
  from r rs
    result_text_is_input [of ?a "ustr ''ok''" r "[]" "[]" 2]
    result_text_is_input [of ?a "[]" r "[ustr ''ok'', ustr ''bad'', ustr ''a'']" rs 2]
  show ?thesis by auto
qed

text \<open>
  Claim C2. Let the model be a fixed function \<open>L\<close> from text to logits: tokenizing and
  running one text \<open>t\<close> gives the one row \<open>L t\<close>, and tokenizing and running a non-empty
  batch gives the rows of its texts, in order. Then for every list of texts and every
  batch size \<open>k \<ge> 1\<close>, \<open>analyze_batch\<close> does what the single-text analysis does on each
  text in turn: when it returns, it returns one result per text, in the order of the
  texts, each equal (so with the same sentiment and confidence) to the result of the
  single-text analysis of that text; and it returns whenever every row has three logits.
\<close>

theorem analyze_batch_matches_single:
  assumes "tokenizer a = Some tok" and "model a = Some mdl"
    and "\<forall>t. mdl (tok (Str t)) = [L t]"
    and "\<forall>b. b \<noteq> [] \<longrightarrow> mdl (tok (StrList b)) = map L b"
    and "1 \<le> k"
  shows "analyze_batch a ts k = map_results (analyze_single a) ts
     \<and> (\<forall>rs. analyze_batch a ts k = Inr rs \<longrightarrow>
           length rs = length ts \<and> map text_field rs = ts
           \<and> (\<forall>i<length ts. analyze_single a (ts ! i) = Inr (rs ! i))
           \<and> map (\<lambda>r. (sentiment r, confidence r)) rs
               = map (\<lambda>t. case analyze_single a t of
                            Inr r \<Rightarrow> (sentiment r, confidence r)) ts)
     \<and> ((\<forall>t\<in>set ts. length (L t) = 3) \<longrightarrow> (\<exists>rs. analyze_batch a ts k = Inr rs))"
proof -
  let ?f = "\<lambda>t. shape_result t (softmax (L t))"
  have single: "analyze_single a = ?f"
    using assms(1,2,3) by (auto simp: analyze_single_black_box)
  have "analyze_batch_from a ts (nat k) 0 [] =
     (case map_results ?f (drop 0 ts) of Inl e \<Rightarrow> Inl e | Inr rs \<Rightarrow> Inr ([] @ rs))"
    using assms(1,2,4,5) by (intro analyze_batch_from_black_box [of a tok mdl L]) auto
  then have eq: "analyze_batch a ts k = map_results (analyze_single a) ts"
    using assms(5) by (simp add: analyze_batch_def single split: sum.splits)
  have each: "length rs = length ts \<and> map text_field rs = ts
       \<and> (\<forall>i<length ts. analyze_single a (ts ! i) = Inr (rs ! i))
       \<and> map (\<lambda>r. (sentiment r, confidence r)) rs
           = map (\<lambda>t. case analyze_single a t of Inr r \<Rightarrow> (sentiment r, confidence r)) ts"
    if rs: "analyze_batch a ts k = Inr rs" for rs
  proof -
    from rs eq have m: "map_results (analyze_single a) ts = Inr rs" by simp
    note n = map_results_nth [OF m]
    have t: "map text_field rs = ts"
      using m by (rule map_results_text) (rule analyze_single_text)
    have "map (\<lambda>r. (sentiment r, confidence r)) rs
           = map (\<lambda>t. case analyze_single a t of Inr r \<Rightarrow> (sentiment r, confidence r)) ts"
      using n by (intro nth_equalityI) auto
    with n t show ?thesis by simp
  qed
  have returns: "\<exists>rs. analyze_batch a ts k = Inr rs" if "\<forall>t\<in>set ts. length (L t) = 3"
    unfolding eq single using that by (intro map_results_returns shape_result_returns) simp
  from eq each returns show ?thesis by blast
qed

lemma sample_logits_pad: "sample_logits (pad_to n row) = sample_logits row"
  by (simp add: sample_logits_def pad_to_def)

lemma sample_model_black_box:
  "sample_model (sample_tokenizer (Str t)) = [sample_logits t]"
  "sample_model (sample_tokenizer (StrList b)) = map sample_logits b"
  by (simp_all add: sample_model_def sample_logits_pad)

text \<open>
  The theorem of C2 on the sample tokenizer and model, which are such a black box, at three
  texts in batches of two: both ways give the same three results.
\<close>

theorem analyze_batch_matches_single_witness:
  "analyze_batch (load_model sample_tokenizer sample_model new_analyzer)
     [ustr ''ok'', ustr ''bad'', ustr ''a''] 2
   = Inr [\<lparr>text_field = ustr ''ok'', sentiment = ''negative'', confidence = 1/2,
           scores = [(''negative'', 1/2), (''neutral'', 1/4), (''positive'', 1/4)]\<rparr>,
          \<lparr>text_field = ustr ''bad'', sentiment = ''positive'', confidence = 1/2,
           scores = [(''negative'', 1/4), (''neutral'', 1/4), (''positive'', 1/2)]\<rparr>,
          \<lparr>text_field = ustr ''a'', sentiment = ''positive'', confidence = 1/2,
           scores = [(''negative'', 1/4), (''neutral'', 1/4), (''positive'', 1/2)]\<rparr>]
   \<and> map_results (analyze_single (load_model sample_tokenizer sample_model new_analyzer))
       [ustr ''ok'', ustr ''bad'', ustr ''a'']
     = analyze_batch (load_model sample_tokenizer sample_model new_analyzer)
         [ustr ''ok'', ustr ''bad'', ustr ''a''] 2"
proof -
  let ?a = "load_model sample_tokenizer sample_model new_analyzer"
  have sm: "softmax [ln 2, 0, 0] = [1/2, 1/4, 1/4]" "softmax [0, 0, ln 2] = [1/4, 1/4, 1/2]"
    by (simp_all add: softmax_def)
  have sh: "\<And>t. shape_result t [1/2, 1/4, 1/4] = Inr \<lparr>text_field = t, sentiment = ''negative'',
        confidence = 1/2,
        scores = [(''negative'', 1/2), (''neutral'', 1/4), (''positive'', 1/4)]\<rparr>"
    "\<And>t. shape_result t [1/4, 1/4, 1/2] = Inr \<lparr>text_field = t, sentiment = ''positive'',
        confidence = 1/2,
        scores = [(''negative'', 1/4), (''neutral'', 1/4), (''positive'', 1/2)]\<rparr>"
    by (simp_all add: shape_result_def np_argmax_def np_max_def py_index_def labels_def)
  have batch: "analyze_batch ?a [ustr ''ok'', ustr ''bad'', ustr ''a''] 2
   = Inr [\<lparr>text_field = ustr ''ok'', sentiment = ''negative'', confidence = 1/2,
           scores = [(''negative'', 1/2), (''neutral'', 1/4), (''positive'', 1/4)]\<rparr>,
          \<lparr>text_field = ustr ''bad'', sentiment = ''positive'', confidence = 1/2,
           scores = [(''negative'', 1/4), (''neutral'', 1/4), (''positive'', 1/2)]\<rparr>,
          \<lparr>text_field = ustr ''a'', sentiment = ''positive'', confidence = 1/2,
           scores = [(''negative'', 1/4), (''neutral'', 1/4), (''positive'', 1/2)]\<rparr>]"
    by (simp add: analyze_batch_def analyze_batch_from.simps load_model_def new_analyzer_def
        sample_model_def sample_logits_def py_index_def sm sh ustr_def pad_to_def)
  have tok: "tokenizer ?a = Some sample_tokenizer" and mdl: "model ?a = Some sample_model"
    by (simp_all add: load_model_def)
  have one: "\<forall>t. sample_model (sample_tokenizer (Str t)) = [sample_logits t]"
    using sample_model_black_box(1) by blast
  have many: "\<forall>b. b \<noteq> [] \<longrightarrow> sample_model (sample_tokenizer (StrList b)) = map sample_logits b"
    using sample_model_black_box(2) by blast
  have k: "(1 :: int) \<le> 2" by simp
  have "analyze_batch ?a [ustr ''ok'', ustr ''bad'', ustr ''a''] 2
      = map_results (analyze_single ?a) [ustr ''ok'', ustr ''bad'', ustr ''a'']"
    by (rule analyze_batch_matches_single [OF tok mdl one many k, THEN conjunct1])
  then have "map_results (analyze_single ?a) [ustr ''ok'', ustr ''bad'', ustr ''a'']
      = analyze_batch ?a [ustr ''ok'', ustr ''bad'', ustr ''a''] 2"
    by (rule sym)
  with batch show ?thesis by (rule conjI)
qed

text \<open>
  Claim C3. Let every row of logits the model gives have three entries. Then every result
  returned by \<open>analyze\<close>, on a text or on a list, or by \<open>analyze_batch\<close> has scores for
  exactly the three labels in their order, the three scores sum to 1 (so to 1 within
  \<open>1e-5\<close>), the confidence is the largest score, the sentiment is the label of the first
  score that equals it (the argmax), and the sentiment is one of \<open>negative\<close>, \<open>neutral\<close>
  and \<open>positive\<close>.
\<close>

theorem result_invariants:
  assumes "model a = Some mdl" and "\<forall>enc. \<forall>row\<in>set (mdl enc). length row = 3"
    and "analyze a (Str t) = Inr (One r)
      \<or> (\<exists>rs. analyze a (StrList ts) = Inr (Many rs) \<and> r \<in> set rs)
      \<or> (\<exists>rs. analyze_batch a ts k = Inr rs \<and> r \<in> set rs)"
  shows "map fst (scores r) = [''negative'', ''neutral'', ''positive'']
     \<and> sum_list (map snd (scores r)) = 1
     \<and> \<bar>sum_list (map snd (scores r)) - 1\<bar> \<le> 1 / 100000
     \<and> confidence r = Max (set (map snd (scores r)))
     \<and> (\<exists>i<3. sentiment r = labels ! i \<and> map snd (scores r) ! i = confidence r
            \<and> (\<forall>j<i. map snd (scores r) ! j < confidence r))
     \<and> sentiment r \<in> {''negative'', ''neutral'', ''positive''}"
proof -
  let ?Q = "\<lambda>r. map fst (scores r) = labels
     \<and> sum_list (map snd (scores r)) = 1
     \<and> confidence r = Max (set (map snd (scores r)))
     \<and> (\<exists>i<3. sentiment r = labels ! i \<and> map snd (scores r) ! i = confidence r
            \<and> (\<forall>j<i. map snd (scores r) ! j < confidence r))
     \<and> sentiment r \<in> set labels"
  have shaped: "?Q r'" if "row \<in> set (mdl enc)" "shape_result t' (softmax row) = Inr r'"
    for enc row t' r'
    using that assms(2) by (intro shape_result_invariant [of t' row r']) auto
  have single: "?Q r'" if "analyze_single a t' = Inr r'" for t' r'
    using analyze_single_row [OF that assms(1)] shaped by blast
  from assms(3) have "?Q r"
  proof (elim disjE exE conjE)
    assume "analyze a (Str t) = Inr (One r)"
    then have "analyze_single a t = Inr r"
      by (auto simp: analyze_def split: if_splits sum.splits)
    then show ?thesis by (rule single)
  next
    fix rs
    assume "analyze a (StrList ts) = Inr (Many rs)" and r: "r \<in> set rs"
    then have "map_results (analyze_single a) ts = Inr rs"
      by (auto simp: analyze_def split: if_splits sum.splits)
    then have "\<forall>r\<in>set rs. ?Q r" by (rule map_results_all) (rule single)
    with r show ?thesis by blast
  next
    fix rs
    assume ab: "analyze_batch a ts k = Inr rs" and r: "r \<in> set rs"
    show ?thesis
    proof (cases "0 < k")
      case False
      with ab r show ?thesis by (auto simp: analyze_batch_def split: if_splits)
    next
      case True
      with ab have "analyze_batch_from a ts (nat k) 0 [] = Inr rs"
        by (auto simp: analyze_batch_def)
      then have "\<forall>r\<in>set rs. ?Q r"
      proof (rule analyze_batch_from_all)
        show "\<forall>r\<in>set []. ?Q r" by simp
      next
        fix mdl' enc t' row r'
        assume m: "model a = Some mdl'" and row: "row \<in> set (mdl' enc)"
          and sr: "shape_result t' (softmax row) = Inr r'"
        from m assms(1) have "mdl' = mdl" by simp
        with row have "row \<in> set (mdl enc)" by simp
        then show "?Q r'" using sr by (rule shaped)
      qed
      with r show ?thesis by blast
    qed
  qed
  then show ?thesis
    unfolding labels_def by (elim conjE, intro conjI) (assumption | simp)+
qed

text \<open>
  The theorem of C3 at the result of \<open>analyze\<close> on the text \<open>ok\<close>, with the sample tokenizer
  and model: the scores are 1/2, 1/4 and 1/4, the sentiment is \<open>negative\<close> and the
  confidence is 1/2.
\<close>

theorem result_invariants_witness:
  "analyze (load_model sample_tokenizer sample_model new_analyzer) (Str (ustr ''ok''))
     = Inr (One \<lparr>text_field = ustr ''ok'', sentiment = ''negative'', confidence = 1/2,
           scores = [(''negative'', 1/2), (''neutral'', 1/4), (''positive'', 1/4)]\<rparr>)
   \<and> sum_list (map snd [(''negative'', 1/2 :: real), (''neutral'', 1/4), (''positive'', 1/4)]) = 1
   \<and> (1/2 :: real) = Max (set (map snd [(''negative'', 1/2 :: real), (''neutral'', 1/4),
        (''positive'', 1/4)]))"
proof -
  let ?a = "load_model sample_tokenizer sample_model new_analyzer"
  let ?r = "\<lparr>text_field = ustr ''ok'', sentiment = ''negative'', confidence = 1/2,
           scores = [(''negative'', 1/2), (''neutral'', 1/4), (''positive'', 1/4)]\<rparr>"
  have sm: "softmax [ln 2, 0, 0] = [1/2, 1/4, 1/4]"
    by (simp add: softmax_def)
  have sh: "\<And>t. shape_result t [1/2, 1/4, 1/4] = Inr \<lparr>text_field = t, sentiment = ''negative'',
        confidence = 1/2,
        scores = [(''negative'', 1/2), (''neutral'', 1/4), (''positive'', 1/4)]\<rparr>"
    by (simp add: shape_result_def np_argmax_def np_max_def py_index_def labels_def)
  have an: "analyze ?a (Str (ustr ''ok'')) = Inr (One ?r)"
    by (simp add: analyze_def analyze_single_def load_model_def new_analyzer_def sample_model_def
        sample_logits_def py_index_def sm sh ustr_def)
  have mdl: "model ?a = Some sample_model" by (simp add: load_model_def)
  have rows: "\<forall>enc. \<forall>row\<in>set (sample_model enc). length row = 3"
    by (auto simp: sample_model_def sample_logits_def Let_def)
  have hyp: "analyze ?a (Str (ustr ''ok'')) = Inr (One ?r)
      \<or> (\<exists>rs. analyze ?a (StrList []) = Inr (Many rs) \<and> ?r \<in> set rs)
      \<or> (\<exists>rs. analyze_batch ?a [] 1 = Inr rs \<and> ?r \<in> set rs)"
    using an by simp
  from result_invariants [OF mdl rows hyp] an rows show ?thesis by simp
qed

section \<open>Properties of the text cleaner\<close>

subsection \<open>No step but normalisation and lower-casing lengthens the text\<close>

lemma sub_url_length: "length (sub_url s) \<le> length s"
proof (induction s rule: sub_url.induct)
  case 1
  show ?case by simp
next
  case (2 c cs)
  show ?case
  proof (cases "match_url (c # cs)")
    case None
    with 2 show ?thesis by simp
  next
    case (Some rest)
    with 2(2) [OF Some] match_url_shorter [OF Some] show ?thesis by simp
  qed
qed

lemma sub_tagged_length: "length (sub_tagged w tag keep s) \<le> length s"
proof (induction w tag keep s rule: sub_tagged.induct)
  case (1 w tag keep)
  show ?case by simp
next
  case (2 w tag keep c cs)
  have "length (takeWhile w cs) + length (dropWhile w cs) = length cs"
    by (metis length_append takeWhile_dropWhile_id)
  with 2 show ?case by (auto simp del: takeWhile_eq_Nil_iff)
qed

lemma sub_emoji_length: "length (sub_emoji s) \<le> length s"
proof (induction s rule: sub_emoji.induct)
  case 1
  show ?case by simp
next
  case (2 c cs)
  have "length (dropWhile emoji_char cs) \<le> length cs" by (rule length_dropWhile_le)
  with 2 show ?case by auto
qed

lemma join_space_Cons_length: "length (join_space (w # ws)) \<le> length w + 1 + length (join_space ws)"
  by (cases ws) simp_all

lemma join_split_from_length: "length (join_space (split_from cur s)) \<le> length cur + length s"
proof (induction s arbitrary: cur)
  case Nil
  show ?case by simp
next
  case (Cons c s)
  show ?case
  proof (cases "is_space c")
    case False
    with Cons [of "cur @ [c]"] show ?thesis by simp
  next
    case True
    show ?thesis
    proof (cases "cur = []")
      case True
      with \<open>is_space c\<close> Cons [of "[]"] show ?thesis by simp
    next
      case False
      with \<open>is_space c\<close> Cons [of "[]"] join_space_Cons_length [of cur "split_from [] s"]
      show ?thesis by simp
    qed
  qed
qed

lemma strip_length: "length (strip s) \<le> length s"
proof -
  have "length (strip s) \<le> length (dropWhile is_space s)"
    unfolding strip_def using length_dropWhile_le [of is_space "rev (dropWhile is_space s)"] by simp
  also have "\<dots> \<le> length s" by (rule length_dropWhile_le)
  finally show ?thesis .
qed

lemma hashtag_step_length: "length (hashtag_step lib r s) \<le> length s"
  by (simp add: hashtag_step_def sub_tagged_length)

lemma finish_length: "length (strip (join_space (split s))) \<le> length s"
  using strip_length [of "join_space (split s)"] join_split_from_length [of "[]" s]
  by (simp add: split_def)

text \<open>
  Claim C4, as stated, fails: with \<open>normalize_unicode\<close> set (the default) the one-character
  text U+FB01 is cleaned to the two characters \<open>fi\<close>, and with \<open>lowercase\<close> set the
  one-character text U+0130 is cleaned to the two characters U+0069 U+0307.
\<close>

theorem clean_text_length_counterexample:
  "clean_text sample_lib default_options [0xFB01] = [0x66, 0x69]
   \<and> \<not> length (clean_text sample_lib default_options [0xFB01]) \<le> length [0xFB01 :: nat]
   \<and> clean_text sample_lib (default_options\<lparr>normalize_unicode := False, lowercase := True\<rparr>)
       [0x130] = [0x69, 0x307]
   \<and> \<not> length (clean_text sample_lib
         (default_options\<lparr>normalize_unicode := False, lowercase := True\<rparr>) [0x130])
       \<le> length [0x130 :: nat]"
  by (simp add: clean_text_def default_options_def sample_lib_def sample_nfkc_def
      sample_lower_def hashtag_step_def match_url_def ustr_def split_def strip_def is_space_def
      in_range_def is_word_def)

lemma clean_text_stages:
  "s \<noteq> [] \<Longrightarrow>
   clean_text lib opts s
     = strip (join_space (split (if lowercase opts then lower lib (before_lowercase lib opts s)
                                 else before_lowercase lib opts s)))"
  by (simp add: clean_text_def before_lowercase_def before_hashtags_def Let_def)

lemma before_hashtags_length:
  "normalize_unicode opts \<longrightarrow> length (nfkc lib s) \<le> length s \<Longrightarrow>
   length (before_hashtags lib opts s) \<le> length s"
proof -
  assume n: "normalize_unicode opts \<longrightarrow> length (nfkc lib s) \<le> length s"
  define t1 where "t1 = (if normalize_unicode opts then nfkc lib s else s)"
  define t2 where "t2 = (if remove_urls opts then sub_url t1 else t1)"
  define t3 where "t3 = (if remove_mentions opts then sub_tagged (is_word lib) 0x40 False t2 else t2)"
  have b: "before_hashtags lib opts s = t3"
    by (simp add: before_hashtags_def t1_def t2_def t3_def)
  have "length t1 \<le> length s" using n by (simp add: t1_def)
  moreover have "length t2 \<le> length t1" by (simp add: t2_def sub_url_length)
  moreover have "length t3 \<le> length t2" by (simp add: t3_def sub_tagged_length)
  ultimately show ?thesis unfolding b by linarith
qed

lemma before_lowercase_length:
  "length (before_lowercase lib opts s) \<le> length (before_hashtags lib opts s)"
proof -
  define t4 where "t4 = hashtag_step lib (remove_hashtags opts) (before_hashtags lib opts s)"
  have step: "length t4 \<le> length (before_hashtags lib opts s)"
    by (simp add: t4_def hashtag_step_length)
  have emoji: "length (if remove_emojis opts then sub_emoji t4 else t4) \<le> length t4"
    by (simp add: sub_emoji_length)
  have "before_lowercase lib opts s = (if remove_emojis opts then sub_emoji t4 else t4)"
    by (simp add: before_lowercase_def t4_def Let_def)
  then show ?thesis using emoji step by (simp only: order_trans)
qed

text \<open>
  Claim C4, amended. For every input string and every combination of the six flags, the
  output of \<open>clean_text\<close> is at most as long as its input, provided that NFKC normalisation
  does not lengthen the input when \<open>normalize_unicode\<close> is set and that lower-casing does
  not lengthen the text it is applied to (the text left by the steps before it) when
  \<open>lowercase\<close> is set; so always when these two flags are off.
\<close>

theorem clean_text_length:
  assumes "normalize_unicode opts \<longrightarrow> length (nfkc lib s) \<le> length s"
    and "lowercase opts \<longrightarrow>
           length (lower lib (before_lowercase lib opts s)) \<le> length (before_lowercase lib opts s)"
  shows "length (clean_text lib opts s) \<le> length s"
proof (cases "s = []")
  case True
  then show ?thesis by (simp add: clean_text_def)
next
  case False
  let ?t5 = "before_lowercase lib opts s"
  let ?t6 = "if lowercase opts then lower lib ?t5 else ?t5"
  have "length (clean_text lib opts s) \<le> length ?t6"
    unfolding clean_text_stages [OF False] by (rule finish_length)
  moreover have "length ?t6 \<le> length ?t5" using assms(2) by simp
  moreover note before_lowercase_length [of lib opts s] before_hashtags_length [OF assms(1)]
  ultimately show ?thesis by linarith
qed

text \<open>
  The amended C4 at the text \<open>"  Check out https://t.co/abc @user #test "\<close>, U+1F60A,
  \<open>"!!!  "\<close> with all six flags set, which is cleaned to \<open>check out !!!\<close>.
\<close>

theorem clean_text_length_witness:
  "clean_text sample_lib
     \<lparr>remove_urls = True, remove_mentions = True, remove_hashtags = True,
      remove_emojis = True, lowercase = True, normalize_unicode = True\<rparr>
     (ustr ''  Check out https://t.co/abc @user #test '' @ [0x1F60A] @ ustr ''!!!  '')
   = ustr ''check out !!!''
   \<and> length (clean_text sample_lib
       \<lparr>remove_urls = True, remove_mentions = True, remove_hashtags = True,
        remove_emojis = True, lowercase = True, normalize_unicode = True\<rparr>
       (ustr ''  Check out https://t.co/abc @user #test '' @ [0x1F60A] @ ustr ''!!!  ''))
     \<le> length (ustr ''  Check out https://t.co/abc @user #test '' @ [0x1F60A] @ ustr ''!!!  '')"
proof -
  let ?opts = "\<lparr>remove_urls = True, remove_mentions = True, remove_hashtags = True,
      remove_emojis = True, lowercase = True, normalize_unicode = True\<rparr>"
  let ?s = "ustr ''  Check out https://t.co/abc @user #test '' @ [0x1F60A] @ ustr ''!!!  ''"
  have v: "clean_text sample_lib ?opts ?s = ustr ''check out !!!''"
    by (simp add: clean_text_def sample_lib_def sample_nfkc_def sample_lower_def hashtag_step_def
        match_url_def url_tail_def url_body.simps url_char_def ustr_def split_def strip_def
        is_space_def in_range_def is_word_def emoji_char_def)
  have n: "normalize_unicode ?opts \<longrightarrow> length (nfkc sample_lib ?s) \<le> length ?s"
    by (simp add: sample_lib_def sample_nfkc_def ustr_def)
  have b: "before_lowercase sample_lib ?opts ?s = ustr ''  Check out    !!!  ''"
    by (simp add: before_lowercase_def before_hashtags_def sample_lib_def sample_nfkc_def
        hashtag_step_def match_url_def url_tail_def url_body.simps url_char_def ustr_def
        in_range_def is_word_def emoji_char_def)
  have l: "lowercase ?opts \<longrightarrow>
      length (lower sample_lib (before_lowercase sample_lib ?opts ?s))
        \<le> length (before_lowercase sample_lib ?opts ?s)"
    unfolding b by (simp add: sample_lib_def sample_lower_def ustr_def in_range_def)
  from clean_text_length [OF n l] v show ?thesis by (intro conjI)
qed

subsection \<open>Whitespace\<close>

lemma split_from_words:
  "\<forall>c\<in>set cur. \<not> is_space c \<Longrightarrow> \<forall>w\<in>set (split_from cur s). split_word w"
proof (induction s arbitrary: cur)
  case Nil
  then show ?case by (simp add: split_word_def)
next
  case (Cons c s)
  show ?case
  proof (cases "is_space c")
    case False
    with Cons.prems have "\<forall>c'\<in>set (cur @ [c]). \<not> is_space c'" by simp
    from Cons.IH [OF this] False show ?thesis by simp
  next
    case True
    have "\<forall>w\<in>set (split_from [] s). split_word w" by (rule Cons.IH) simp
    with True Cons.prems show ?thesis by (simp add: split_word_def)
  qed
qed

lemma split_words: "\<forall>w\<in>set (split s). split_word w"
  unfolding split_def by (rule split_from_words) simp

lemma join_space_Cons: "join_space (w # ws) = w @ (if ws = [] then [] else 0x20 # join_space ws)"
  by (cases ws) simp_all

lemma join_space_hd:
  "\<forall>w\<in>set ws. split_word w \<Longrightarrow> ws \<noteq> [] \<Longrightarrow> join_space ws \<noteq> [] \<and> \<not> is_space (hd (join_space ws))"
  by (cases ws) (auto simp: join_space_Cons split_word_def hd_append)

lemma join_space_last:
  "\<forall>w\<in>set ws. split_word w \<Longrightarrow> ws \<noteq> [] \<Longrightarrow> \<not> is_space (last (join_space ws))"
proof (induction ws rule: join_space.induct)
  case 1
  then show ?case by simp
next
  case (2 w)
  then show ?case by (simp add: split_word_def)
next
  case (3 w v ws)
  then have "\<not> is_space (last (join_space (v # ws)))" by simp
  moreover have "join_space (v # ws) \<noteq> []" using 3(2) join_space_hd [of "v # ws"] by simp
  ultimately show ?case by simp
qed

lemma no_double_space_word_append:
  "\<forall>c\<in>set w. \<not> is_space c \<Longrightarrow> no_double_space (w @ r) = no_double_space r"
proof (induction w)
  case Nil
  show ?case by simp
next
  case (Cons a w)
  then have ih: "no_double_space (w @ r) = no_double_space r" and a: "\<not> is_space a" by simp_all
  show ?case
  proof (cases "w @ r")
    case Nil
    then show ?thesis by simp
  next
    case (Cons b t)
    with ih a show ?thesis by simp
  qed
qed

lemma join_space_no_double:
  "\<forall>w\<in>set ws. split_word w \<Longrightarrow> no_double_space (join_space ws)"
proof (induction ws rule: join_space.induct)
  case 1
  show ?case by simp
next
  case (2 w)
  then have "\<forall>c\<in>set w. \<not> is_space c" by (simp add: split_word_def)
  from no_double_space_word_append [OF this, of "[]"] show ?case by simp
next
  case (3 w v ws)
  then have ih: "no_double_space (join_space (v # ws))" by simp
  from 3(2) have w: "\<forall>c\<in>set w. \<not> is_space c" by (simp add: split_word_def)
  from 3(2) join_space_hd [of "v # ws"] obtain b t where
    bt: "join_space (v # ws) = b # t" and b: "\<not> is_space b"
    by (cases "join_space (v # ws)") auto
  have "no_double_space (0x20 # join_space (v # ws))" using ih b unfolding bt by simp
  then show ?case using no_double_space_word_append [OF w] by simp
qed

lemma join_space_only_space:
  "\<forall>w\<in>set ws. split_word w \<Longrightarrow> \<forall>c\<in>set (join_space ws). is_space c \<longrightarrow> c = 0x20"
  by (induction ws rule: join_space.induct) (auto simp: split_word_def)

lemma no_double_space_nth:
  "no_double_space s \<Longrightarrow> Suc i < length s \<Longrightarrow> \<not> (is_space (s ! i) \<and> is_space (s ! Suc i))"
proof (induction s arbitrary: i rule: no_double_space.induct)
  case (1 a b s)
  then show ?case by (cases i) auto
qed simp_all

lemma strip_trimmed:
  assumes "s = [] \<or> (\<not> is_space (hd s) \<and> \<not> is_space (last s))"
  shows "strip s = s"
proof (cases "s = []")
  case True
  then show ?thesis by (simp add: strip_def)
next
  case False
  with assms have h: "\<not> is_space (hd s)" and l: "\<not> is_space (last s)" by simp_all
  from False h have 1: "dropWhile is_space s = s" by (cases s) simp_all
  from False l have 2: "dropWhile is_space (rev s) = rev s"
    by (cases "rev s") (simp_all add: last_rev [symmetric] del: last_rev)
  show ?thesis by (simp add: strip_def 1 2)
qed

lemma finish_tidy:
  fixes s :: ustring
  defines "out \<equiv> strip (join_space (split s))"
  shows "(out = [] \<or> (\<not> is_space (hd out) \<and> \<not> is_space (last out)))
     \<and> no_double_space out \<and> (\<forall>c\<in>set out. is_space c \<longrightarrow> c = 0x20)"
proof -
  let ?j = "join_space (split s)"
  note w = split_words [of s]
  have trimmed: "?j = [] \<or> (\<not> is_space (hd ?j) \<and> \<not> is_space (last ?j))"
  proof (cases "split s = []")
    case True
    then show ?thesis by simp
  next
    case False
    with w join_space_hd [of "split s"] join_space_last [of "split s"] show ?thesis by simp
  qed
  then have "out = ?j" unfolding out_def by (rule strip_trimmed)
  with trimmed join_space_no_double [OF w] join_space_only_space [OF w] show ?thesis by simp
qed

lemma clean_text_finish:
  "clean_text lib opts s = [] \<or> (\<exists>t. clean_text lib opts s = strip (join_space (split t)))"
  by (auto simp: clean_text_def Let_def)

text \<open>
  Claim C7. For every input string and every combination of the options, the output of
  \<open>clean_text\<close> is empty or starts and ends with a character that is not whitespace, has
  no two whitespace characters in a row, and has no whitespace character but the space
  U+0020; and \<open>clean_text\<close> of the empty string is the empty string.
\<close>

theorem clean_text_whitespace:
  "(clean_text lib opts s = []
      \<or> (\<not> is_space (hd (clean_text lib opts s)) \<and> \<not> is_space (last (clean_text lib opts s))))
   \<and> (\<forall>i. Suc i < length (clean_text lib opts s) \<longrightarrow>
         \<not> (is_space (clean_text lib opts s ! i) \<and> is_space (clean_text lib opts s ! Suc i)))
   \<and> (\<forall>c\<in>set (clean_text lib opts s). is_space c \<longrightarrow> c = 0x20)
   \<and> clean_text lib opts [] = []"
proof -
  have e: "clean_text lib opts [] = []" by (simp add: clean_text_def)
  from clean_text_finish [of lib opts s] show ?thesis
  proof
    assume "clean_text lib opts s = []"
    with e show ?thesis by simp
  next
    assume "\<exists>t. clean_text lib opts s = strip (join_space (split t))"
    then obtain t where t: "clean_text lib opts s = strip (join_space (split t))" ..
    from finish_tidy [of t] e show ?thesis
      unfolding t using no_double_space_nth [of "strip (join_space (split t))"] by blast
  qed
qed



text \<open>The theorem of C7 at a text with spaces and a tab around two words.\<close>

theorem clean_text_whitespace_witness:
  "clean_text sample_lib default_options ([0x20, 0x09] @ ustr ''a  '' @ [0x09] @ ustr ''b '')
     = ustr ''a b''
   \<and> \<not> is_space (hd (clean_text sample_lib default_options
         ([0x20, 0x09] @ ustr ''a  '' @ [0x09] @ ustr ''b '')))
   \<and> \<not> is_space (last (clean_text sample_lib default_options
         ([0x20, 0x09] @ ustr ''a  '' @ [0x09] @ ustr ''b '')))
   \<and> clean_text sample_lib default_options [] = []"
proof -
  let ?s = "[0x20, 0x09] @ ustr ''a  '' @ [0x09] @ ustr ''b ''"
  have v: "clean_text sample_lib default_options ?s = ustr ''a b''"
    by (simp add: clean_text_def default_options_def sample_lib_def sample_nfkc_def
        hashtag_step_def match_url_def ustr_def split_def strip_def is_space_def in_range_def
        is_word_def)
  then have ne: "clean_text sample_lib default_options ?s \<noteq> []" by (simp add: ustr_def)
  from clean_text_whitespace [of sample_lib default_options ?s] ne v show ?thesis by blast
qed

subsection \<open>Hashtags\<close>

lemma hash_not_word: "\<not> is_word lib 0x23"
  by (simp add: is_word_def in_range_def)

lemma takeWhile_stop: "\<not> P x \<Longrightarrow> takeWhile P (cs @ x # r) = takeWhile P cs"
  by (induction cs) simp_all

lemma dropWhile_stop: "\<not> P x \<Longrightarrow> dropWhile P (cs @ x # r) = dropWhile P cs @ x # r"
  by (induction cs) simp_all

lemma sub_tagged_match:
  "takeWhile w cs \<noteq> [] \<Longrightarrow>
   sub_tagged w tag keep (tag # cs)
     = (if keep then takeWhile w cs else []) @ sub_tagged w tag keep (dropWhile w cs)"
  by (simp only: sub_tagged.simps simp_thms if_True)

lemma sub_tagged_skip:
  "\<not> (c = tag \<and> takeWhile w cs \<noteq> []) \<Longrightarrow>
   sub_tagged w tag keep (c # cs) = c # sub_tagged w tag keep cs"
  by (simp only: sub_tagged.simps if_False)

lemma sub_tagged_before:
  "\<not> w tag \<Longrightarrow>
   sub_tagged w tag keep (u @ tag # rest) = sub_tagged w tag keep u @ sub_tagged w tag keep (tag # rest)"
proof (induction w tag keep u rule: sub_tagged.induct)
  case (1 w tag keep)
  show ?case by (simp only: sub_tagged.simps append_Nil)
next
  case (2 w tag keep c cs)
  note tw = takeWhile_stop [of w tag cs rest, OF "2.prems"]
    and dw = dropWhile_stop [of w tag cs rest, OF "2.prems"]
  show ?case
  proof (cases "c = tag \<and> takeWhile w cs \<noteq> []")
    case True
    then have c: "c = tag" and m: "takeWhile w cs \<noteq> []" by blast+
    have ih: "sub_tagged w tag keep (dropWhile w cs @ tag # rest)
        = sub_tagged w tag keep (dropWhile w cs) @ sub_tagged w tag keep (tag # rest)"
      using True "2.prems" by (rule "2.IH"(1))
    have "sub_tagged w tag keep ((c # cs) @ tag # rest)
        = (if keep then takeWhile w cs else [])
          @ sub_tagged w tag keep (dropWhile w cs @ tag # rest)"
      using sub_tagged_match [of w "cs @ tag # rest" tag keep] m
      by (simp only: c tw dw append_Cons) simp
    also have "\<dots> = ((if keep then takeWhile w cs else []) @ sub_tagged w tag keep (dropWhile w cs))
          @ sub_tagged w tag keep (tag # rest)"
      by (simp only: ih append_assoc)
    also have "(if keep then takeWhile w cs else []) @ sub_tagged w tag keep (dropWhile w cs)
        = sub_tagged w tag keep (c # cs)"
      unfolding c by (rule sub_tagged_match [OF m, symmetric])
    finally show ?thesis .
  next
    case False
    have ih: "sub_tagged w tag keep (cs @ tag # rest)
        = sub_tagged w tag keep cs @ sub_tagged w tag keep (tag # rest)"
      using False "2.prems" by (rule "2.IH"(2))
    from False have "\<not> (c = tag \<and> takeWhile w (cs @ tag # rest) \<noteq> [])"
      unfolding tw .
    then have "sub_tagged w tag keep ((c # cs) @ tag # rest)
        = c # sub_tagged w tag keep (cs @ tag # rest)"
      unfolding append_Cons by (rule sub_tagged_skip)
    also have "\<dots> = (c # sub_tagged w tag keep cs) @ sub_tagged w tag keep (tag # rest)"
      by (simp only: ih append_Cons)
    also have "c # sub_tagged w tag keep cs = sub_tagged w tag keep (c # cs)"
      by (rule sub_tagged_skip [OF False, symmetric])
    finally show ?thesis .
  qed
qed

lemma sub_tagged_token:
  assumes "wd \<noteq> []" and "\<forall>c\<in>set wd. w c" and "v = [] \<or> \<not> w (hd v)"
  shows "sub_tagged w tag keep (tag # wd @ v) = (if keep then wd else []) @ sub_tagged w tag keep v"
proof -
  from assms(3) have v: "takeWhile w v = []" "dropWhile w v = v" by (cases v; simp)+
  from assms(2) have "takeWhile w (wd @ v) = wd" "dropWhile w (wd @ v) = v"
    by (simp_all add: v)
  with assms(1) show ?thesis by (simp del: takeWhile_eq_Nil_iff)
qed

lemma sub_tagged_no_token:
  "(\<forall>i. Suc i < length s \<longrightarrow> s ! i = tag \<longrightarrow> \<not> w (s ! Suc i)) \<Longrightarrow> sub_tagged w tag keep s = s"
proof (induction s)
  case Nil
  show ?case by simp
next
  case (Cons c cs)
  have "\<forall>i. Suc i < length cs \<longrightarrow> cs ! i = tag \<longrightarrow> \<not> w (cs ! Suc i)"
  proof (intro allI impI)
    fix i assume "Suc i < length cs" "cs ! i = tag"
    with Cons.prems [rule_format, of "Suc i"] show "\<not> w (cs ! Suc i)" by simp
  qed
  then have ih: "sub_tagged w tag keep cs = cs" by (rule Cons.IH)
  have "\<not> (c = tag \<and> takeWhile w cs \<noteq> [])"
  proof
    assume a: "c = tag \<and> takeWhile w cs \<noteq> []"
    then obtain d ds where cs: "cs = d # ds" and "w d" by (cases cs) (auto split: if_splits)
    with a Cons.prems [rule_format, of 0] show False by simp
  qed
  then have "sub_tagged w tag keep (c # cs) = c # sub_tagged w tag keep cs"
    by (simp only: sub_tagged.simps if_False)
  with ih show ?case by simp
qed

lemma sub_tagged_set: "set (sub_tagged w tag keep s) \<subseteq> set s"
proof (induction w tag keep s rule: sub_tagged.induct)
  case (1 w tag keep)
  show ?case by simp
next
  case (2 w tag keep c cs)
  have "set (takeWhile w cs) \<subseteq> set cs" "set (dropWhile w cs) \<subseteq> set cs"
    by (auto dest: set_takeWhileD set_dropWhileD)
  with 2 show ?case by (auto simp del: takeWhile_eq_Nil_iff)
qed

lemma split_from_no_space:
  "\<forall>c\<in>set s. \<not> is_space c \<Longrightarrow> split_from cur s = (if cur @ s = [] then [] else [cur @ s])"
  by (induction s arbitrary: cur) auto

lemma finish_no_space:
  assumes "\<forall>c\<in>set s. \<not> is_space c"
  shows "strip (join_space (split s)) = s"
proof (cases "s = []")
  case True
  then show ?thesis by (simp add: split_def strip_def)
next
  case False
  with assms have j: "join_space (split s) = s"
    by (simp add: split_def split_from_no_space)
  from assms have "dropWhile is_space s = s" by (cases s) simp_all
  moreover from assms have "dropWhile is_space (rev s) = rev s" by (cases "rev s") (simp, metis dropWhile.simps(2) list.set_intros(1) set_rev)
  ultimately show ?thesis by (simp add: j strip_def)
qed

lemma dropWhile_head: "dropWhile P s = [] \<or> \<not> P (hd (dropWhile P s))"
  by (induction s) simp_all

lemma sub_tagged_head:
  "s = [] \<or> \<not> w (hd s) \<Longrightarrow>
   sub_tagged w tag False s = [] \<or> \<not> w (hd (sub_tagged w tag False s))"
proof (induction w tag "False" s rule: sub_tagged.induct)
  case (1 w tag)
  show ?case by simp
next
  case (2 w tag c cs)
  show ?case
  proof (cases "c = tag \<and> takeWhile w cs \<noteq> []")
    case True
    then have c: "c = tag" and m: "takeWhile w cs \<noteq> []" by blast+
    have "sub_tagged w tag False (dropWhile w cs) = []
        \<or> \<not> w (hd (sub_tagged w tag False (dropWhile w cs)))"
      using True dropWhile_head [of w cs] by (rule "2.hyps"(1))
    then show ?thesis unfolding c sub_tagged_match [OF m] by simp
  next
    case False
    from "2.prems" have "\<not> w c" by simp
    then show ?thesis unfolding sub_tagged_skip [OF False] by simp
  qed
qed

lemma sub_tagged_no_token_left: "no_token w tag (sub_tagged w tag False s)"
proof (induction w tag "False" s rule: sub_tagged.induct)
  case (1 w tag)
  show ?case by simp
next
  case (2 w tag c cs)
  show ?case
  proof (cases "c = tag \<and> takeWhile w cs \<noteq> []")
    case True
    then have c: "c = tag" and m: "takeWhile w cs \<noteq> []" by blast+
    have "no_token w tag (sub_tagged w tag False (dropWhile w cs))"
      using True by (rule "2.hyps"(1))
    then show ?thesis unfolding c sub_tagged_match [OF m] by simp
  next
    case False
    have ih: "no_token w tag (sub_tagged w tag False cs)" using False by (rule "2.hyps"(2))
    show ?thesis
    proof (cases "sub_tagged w tag False cs")
      case Nil
      then show ?thesis unfolding sub_tagged_skip [OF False] by simp
    next
      case (Cons b t)
      have "\<not> (c = tag \<and> w b)"
      proof
        assume a: "c = tag \<and> w b"
        with False have "takeWhile w cs = []" by simp
        then have "cs = [] \<or> \<not> w (hd cs)" by (cases cs) (auto split: if_splits)
        from sub_tagged_head [of cs w tag, OF this] Cons a show False by simp
      qed
      with ih Cons show ?thesis unfolding sub_tagged_skip [OF False] by simp
    qed
  qed
qed

lemma no_token_nth:
  "no_token w tag s \<Longrightarrow> Suc i < length s \<Longrightarrow> s ! i = tag \<Longrightarrow> \<not> w (s ! Suc i)"
proof (induction w tag s arbitrary: i rule: no_token.induct)
  case (1 w tag a b s)
  then show ?case by (cases i) auto
qed simp_all

lemma sub_tagged_keeps_rest:
  "\<not> w tag \<Longrightarrow>
   filter (\<lambda>c. c \<noteq> tag) (sub_tagged w tag True s) = filter (\<lambda>c. c \<noteq> tag) s"
proof (induction w tag "True" s rule: sub_tagged.induct)
  case (1 w tag)
  show ?case by simp
next
  case (2 w tag c cs)
  show ?case
  proof (cases "c = tag \<and> takeWhile w cs \<noteq> []")
    case True
    then have c: "c = tag" and m: "takeWhile w cs \<noteq> []" by blast+
    have ih: "filter (\<lambda>c. c \<noteq> tag) (sub_tagged w tag True (dropWhile w cs))
        = filter (\<lambda>c. c \<noteq> tag) (dropWhile w cs)"
      using True "2.prems" by (rule "2.hyps"(1))
    have "filter (\<lambda>c. c \<noteq> tag) (takeWhile w cs) @ filter (\<lambda>c. c \<noteq> tag) (dropWhile w cs)
        = filter (\<lambda>c. c \<noteq> tag) cs"
      by (simp only: filter_append [symmetric] takeWhile_dropWhile_id)
    with ih show ?thesis unfolding c sub_tagged_match [OF m] by simp
  next
    case False
    have "filter (\<lambda>c. c \<noteq> tag) (sub_tagged w tag True cs) = filter (\<lambda>c. c \<noteq> tag) cs"
      using False "2.prems" by (rule "2.hyps"(2))
    then show ?thesis unfolding sub_tagged_skip [OF False] by simp
  qed
qed

lemma finish_join: "strip (join_space (split s)) = join_space (split s)"
proof -
  let ?j = "join_space (split s)"
  note w = split_words [of s]
  have "?j = [] \<or> (\<not> is_space (hd ?j) \<and> \<not> is_space (last ?j))"
  proof (cases "split s = []")
    case True
    then show ?thesis by simp
  next
    case False
    with w join_space_hd [of "split s"] join_space_last [of "split s"] show ?thesis by simp
  qed
  then show ?thesis by (rule strip_trimmed)
qed

lemma no_token_Cons:
  "no_token w tag (a # s) = ((s = [] \<or> \<not> (a = tag \<and> w (hd s))) \<and> no_token w tag s)"
  by (cases s) auto

lemma no_token_append:
  "no_token w tag (a @ b)
     = (no_token w tag a \<and> no_token w tag b
        \<and> (a = [] \<or> b = [] \<or> \<not> (last a = tag \<and> w (hd b))))"
proof (induction a)
  case Nil
  show ?case by simp
next
  case (Cons x a)
  show ?case
    unfolding append_Cons no_token_Cons [of w tag x "a @ b"] no_token_Cons [of w tag x a] Cons.IH
    by (cases a; cases b) auto
qed

lemma split_from_no_token:
  "no_token w tag (cur @ s) \<Longrightarrow> \<forall>x\<in>set (split_from cur s). no_token w tag x"
proof (induction s arbitrary: cur)
  case Nil
  then show ?case by simp
next
  case (Cons c s)
  show ?case
  proof (cases "is_space c")
    case False
    from Cons.prems have "no_token w tag ((cur @ [c]) @ s)" by simp
    from Cons.IH [OF this] False show ?thesis by simp
  next
    case True
    from Cons.prems have cur: "no_token w tag cur" and "no_token w tag (c # s)"
      unfolding no_token_append [of w tag cur "c # s"] by blast+
    then have "no_token w tag ([] @ s)" by (simp add: no_token_Cons [of w tag c s])
    from Cons.IH [OF this] True cur show ?thesis by simp
  qed
qed

lemma join_space_no_token:
  "\<forall>x\<in>set ws. no_token w tag x \<Longrightarrow> \<not> w 0x20 \<Longrightarrow> tag \<noteq> 0x20 \<Longrightarrow>
   no_token w tag (join_space ws)"
proof (induction ws rule: join_space.induct)
  case 1
  show ?case by simp
next
  case (2 x)
  then show ?case by simp
next
  case (3 x v ws)
  then have ih: "no_token w tag (join_space (v # ws))" and x: "no_token w tag x" by simp_all
  from ih "3.prems"(3) have "no_token w tag (0x20 # join_space (v # ws))"
    by (simp add: no_token_Cons [of w tag "0x20"])
  with x "3.prems"(2) show ?case
    by (simp add: no_token_append [of w tag x])
qed

lemma finish_no_token:
  assumes "no_token w tag s" and "\<not> w 0x20" and "tag \<noteq> 0x20"
  shows "no_token w tag (strip (join_space (split s)))"
proof -
  from assms(1) have "\<forall>x\<in>set (split s). no_token w tag x"
    unfolding split_def by (intro split_from_no_token) simp
  then show ?thesis unfolding finish_join using assms(2,3) by (rule join_space_no_token)
qed

lemma join_split_from_nonspace:
  "\<forall>c\<in>set cur. \<not> is_space c \<Longrightarrow>
   filter (\<lambda>c. \<not> is_space c) (join_space (split_from cur s))
     = cur @ filter (\<lambda>c. \<not> is_space c) s"
proof (induction s arbitrary: cur)
  case Nil
  then show ?case by simp
next
  case (Cons c s)
  show ?case
  proof (cases "is_space c")
    case False
    with Cons.prems have "\<forall>c'\<in>set (cur @ [c]). \<not> is_space c'" by simp
    from Cons.IH [OF this] False show ?thesis by simp
  next
    case True
    have sp: "is_space 0x20" by (simp add: is_space_def)
    have ih: "filter (\<lambda>c. \<not> is_space c) (join_space (split_from [] s))
        = filter (\<lambda>c. \<not> is_space c) s"
      using Cons.IH [of "[]"] by simp
    from Cons.prems have cur: "filter (\<lambda>c. \<not> is_space c) cur = cur" by simp
    show ?thesis
    proof (cases "cur = []")
      case True
      with \<open>is_space c\<close> ih show ?thesis by simp
    next
      case False
      with \<open>is_space c\<close> ih cur sp show ?thesis
        by (cases "split_from [] s = []") (simp_all add: join_space_Cons)
    qed
  qed
qed

lemma finish_nonspace:
  "filter (\<lambda>c. \<not> is_space c) (strip (join_space (split s))) = filter (\<lambda>c. \<not> is_space c) s"
proof -
  have "filter (\<lambda>c. \<not> is_space c) (join_space (split s)) = filter (\<lambda>c. \<not> is_space c) s"
    using join_split_from_nonspace [of "[]" s] by (simp add: split_def)
  then show ?thesis by (simp only: finish_join)
qed

lemma space_not_word: "\<not> is_word lib 0x20"
  by (simp add: is_word_def in_range_def)

lemma filter_both:
  "filter (\<lambda>c. c \<noteq> t \<and> \<not> S c) xs = filter (\<lambda>c. c \<noteq> t) (filter (\<lambda>c. \<not> S c) xs)"
  "filter (\<lambda>c. c \<noteq> t \<and> \<not> S c) xs = filter (\<lambda>c. \<not> S c) (filter (\<lambda>c. c \<noteq> t) xs)"
  by (simp_all add: conj_commute)

lemma hashtag_step_token:
  assumes "word \<noteq> []" and "\<forall>c\<in>set word. is_word lib c"
    and "after = [] \<or> \<not> is_word lib (hd after)"
  shows "hashtag_step lib remove (before @ 0x23 # word @ after)
       = hashtag_step lib remove before @ (if remove then [] else word)
         @ hashtag_step lib remove after"
proof -
  have tok: "sub_tagged (is_word lib) 0x23 keep (before @ 0x23 # word @ after)
      = sub_tagged (is_word lib) 0x23 keep before
        @ (if keep then word else []) @ sub_tagged (is_word lib) 0x23 keep after" for keep
    using sub_tagged_before [of "is_word lib" "0x23" keep before "word @ after", OF hash_not_word]
      sub_tagged_token [of word "is_word lib" after "0x23" keep, OF assms]
    by simp
  show ?thesis
  proof (cases remove)
    case True
    with tok [of False] show ?thesis by (simp add: hashtag_step_def)
  next
    case False
    with tok [of True] show ?thesis by (simp add: hashtag_step_def)
  qed
qed

lemma hashtag_step_none:
  "\<forall>i. Suc i < length s \<longrightarrow> s ! i = 0x23 \<longrightarrow> \<not> is_word lib (s ! Suc i) \<Longrightarrow>
   hashtag_step lib remove s = s"
  by (simp add: hashtag_step_def sub_tagged_no_token)

lemma hashtag_step_no_token: "no_token (is_word lib) 0x23 (hashtag_step lib True s)"
  using sub_tagged_no_token_left [of "is_word lib" "0x23" s] by (simp add: hashtag_step_def)

lemma hashtag_step_keeps:
  "filter (\<lambda>c. c \<noteq> 0x23) (hashtag_step lib False s) = filter (\<lambda>c. c \<noteq> 0x23) s"
  using sub_tagged_keeps_rest [of "is_word lib" "0x23" s, OF hash_not_word]
  by (simp add: hashtag_step_def)

lemma clean_text_hashtag_stage:
  "s \<noteq> [] \<Longrightarrow>
   clean_text lib opts s
     = strip (join_space (split
         (let text = hashtag_step lib (remove_hashtags opts) (before_hashtags lib opts s);
              text = (if remove_emojis opts then sub_emoji text else text)
          in if lowercase opts then lower lib text else text)))"
  by (simp add: clean_text_def before_hashtags_def Let_def)

lemma clean_text_plain:
  "s \<noteq> [] \<Longrightarrow> \<not> remove_emojis opts \<Longrightarrow> \<not> lowercase opts \<Longrightarrow>
   clean_text lib opts s
     = strip (join_space (split (hashtag_step lib (remove_hashtags opts)
         (before_hashtags lib opts s))))"
  by (simp add: clean_text_def before_hashtags_def Let_def)

lemma clean_text_no_token:
  assumes "remove_hashtags opts" and "\<not> remove_emojis opts" and "\<not> lowercase opts"
  shows "no_token (is_word lib) 0x23 (clean_text lib opts s)"
proof (cases "s = []")
  case True
  then show ?thesis by (simp add: clean_text_def)
next
  case False
  have "no_token (is_word lib) 0x23
      (strip (join_space (split (hashtag_step lib True (before_hashtags lib opts s)))))"
    using hashtag_step_no_token space_not_word by (rule finish_no_token) simp
  then show ?thesis
    using clean_text_plain [OF False assms(2,3), of lib] assms(1) by simp
qed

lemma clean_text_keeps:
  assumes "s \<noteq> []" and "\<not> remove_hashtags opts" and "\<not> remove_emojis opts"
    and "\<not> lowercase opts"
  shows "filter (\<lambda>c. c \<noteq> 0x23 \<and> \<not> is_space c) (clean_text lib opts s)
       = filter (\<lambda>c. c \<noteq> 0x23 \<and> \<not> is_space c) (before_hashtags lib opts s)"
proof -
  let ?x = "hashtag_step lib False (before_hashtags lib opts s)"
  have c: "clean_text lib opts s = strip (join_space (split ?x))"
    using clean_text_plain [OF assms(1,3,4), of lib] assms(2) by simp
  have 1: "filter (\<lambda>c. \<not> is_space c) (strip (join_space (split ?x)))
      = filter (\<lambda>c. \<not> is_space c) ?x"
    by (rule finish_nonspace)
  have 2: "filter (\<lambda>c. c \<noteq> 0x23) ?x = filter (\<lambda>c. c \<noteq> 0x23) (before_hashtags lib opts s)"
    by (rule hashtag_step_keeps)
  have "filter (\<lambda>c. c \<noteq> 0x23 \<and> \<not> is_space c) (clean_text lib opts s)
      = filter (\<lambda>c. c \<noteq> 0x23) (filter (\<lambda>c. \<not> is_space c) (strip (join_space (split ?x))))"
    unfolding c by (rule filter_both(1))
  also have "\<dots> = filter (\<lambda>c. c \<noteq> 0x23) (filter (\<lambda>c. \<not> is_space c) ?x)"
    unfolding 1 by (rule refl)
  also have "\<dots> = filter (\<lambda>c. c \<noteq> 0x23 \<and> \<not> is_space c) ?x"
    by (rule filter_both(1) [symmetric])
  also have "\<dots> = filter (\<lambda>c. \<not> is_space c) (filter (\<lambda>c. c \<noteq> 0x23) ?x)"
    by (rule filter_both(2))
  also have "\<dots> = filter (\<lambda>c. \<not> is_space c)
        (filter (\<lambda>c. c \<noteq> 0x23) (before_hashtags lib opts s))"
    unfolding 2 by (rule refl)
  also have "\<dots> = filter (\<lambda>c. c \<noteq> 0x23 \<and> \<not> is_space c) (before_hashtags lib opts s)"
    by (rule filter_both(2) [symmetric])
  finally show ?thesis .
qed

lemma clean_text_only_hashtags:
  assumes "\<not> normalize_unicode opts \<and> \<not> remove_urls opts \<and> \<not> remove_mentions opts
          \<and> \<not> remove_emojis opts \<and> \<not> lowercase opts"
  shows "clean_text lib opts s
       = strip (join_space (split (hashtag_step lib (remove_hashtags opts) s)))"
    and "\<forall>c\<in>set s. \<not> is_space c \<Longrightarrow>
         clean_text lib opts s = hashtag_step lib (remove_hashtags opts) s"
proof -
  show w: "clean_text lib opts s
       = strip (join_space (split (hashtag_step lib (remove_hashtags opts) s)))"
  proof (cases "s = []")
    case True
    then show ?thesis by (simp add: clean_text_def hashtag_step_def split_def strip_def)
  next
    case False
    with assms show ?thesis by (simp add: clean_text_def)
  qed
  assume ns: "\<forall>c\<in>set s. \<not> is_space c"
  have "set (hashtag_step lib (remove_hashtags opts) s) \<subseteq> set s"
    by (simp add: hashtag_step_def sub_tagged_set)
  with ns have "\<forall>c\<in>set (hashtag_step lib (remove_hashtags opts) s). \<not> is_space c" by blast
  then show "clean_text lib opts s = hashtag_step lib (remove_hashtags opts) s"
    unfolding w by (rule finish_no_space)
qed

text \<open>
  Claim C6, as stated of \<open>clean_text\<close> on every input, fails, because the hashtag step
  works on the text left by the steps before it and the steps after it work on its
  result. In \<open>#http://x.y z\<close> the \<open>#\<close> is followed by the word \<open>http\<close>, but the URL is
  removed first: the output is \<open># z\<close>, with removal disabled (the \<open>#\<close> is kept and the word
  is not) and with removal enabled (the \<open>#\<close> is kept). With removal disabled and emoji
  removal enabled, \<open>#\<close> followed by U+FB01 is cleaned to the empty text: the word is not
  kept, since U+FB01 lies in a range of \<open>emoji_pattern\<close>.
\<close>

theorem clean_text_hashtags_counterexample:
  "clean_text sample_lib default_options (ustr ''#http://x.y z'') = ustr ''# z''
   \<and> clean_text sample_lib (default_options\<lparr>remove_hashtags := True\<rparr>) (ustr ''#http://x.y z'')
       = ustr ''# z''
   \<and> clean_text sample_lib (default_options\<lparr>normalize_unicode := False, remove_emojis := True\<rparr>)
       [0x23, 0xFB01] = []"
  by (simp add: clean_text_def default_options_def sample_lib_def sample_nfkc_def
      hashtag_step_def match_url_def url_tail_def url_body.simps url_char_def ustr_def
      split_def strip_def is_space_def in_range_def is_word_def emoji_char_def)

text \<open>
  Claim C6, amended. For every input text and every combination of the options,
  \<open>clean_text\<close> applies its hashtag step to the text left by the normalisation, the URL
  removal and the mention removal, and the emoji removal, the lower-casing and the
  collapse of whitespace then work on the result of the step. A token is a \<open>#\<close>, then a
  non-empty run \<open>word\<close> of word characters, then the end of the text or a character that
  is not a word character. With removal enabled the step deletes the token, with removal
  disabled it deletes the \<open>#\<close> and keeps \<open>word\<close>, and in both cases it goes on in the same
  way before and after the token; a text in which no \<open>#\<close> is followed by a word character
  is left as it is; with removal enabled the step leaves no \<open>#\<close> followed by a word
  character, and with removal disabled it deletes nothing but \<open>#\<close> characters. When emoji
  removal and lower-casing are off, as by default: if the steps before leave a text with
  a token as it is, \<open>clean_text\<close> deletes the token (removal enabled) or only its \<open>#\<close>
  (removal disabled), up to the collapse of whitespace; with removal enabled the output of
  \<open>clean_text\<close> has no \<open>#\<close> followed by a word character; with removal disabled the output
  has, \<open>#\<close> and whitespace apart, the characters of the text the step received. When the
  other five options are off, \<open>clean_text\<close> is the step followed by the collapse of
  whitespace, and the step alone on a text without whitespace.
\<close>

theorem clean_text_hashtags:
  assumes "word \<noteq> []" and "\<forall>c\<in>set word. is_word lib c"
    and "after = [] \<or> \<not> is_word lib (hd after)"
  shows "(s \<noteq> [] \<longrightarrow>
            clean_text lib opts s
              = strip (join_space (split
                  (let text = hashtag_step lib (remove_hashtags opts) (before_hashtags lib opts s);
                       text = (if remove_emojis opts then sub_emoji text else text)
                   in if lowercase opts then lower lib text else text))))
     \<and> hashtag_step lib True (before @ 0x23 # word @ after)
       = hashtag_step lib True before @ hashtag_step lib True after
     \<and> hashtag_step lib False (before @ 0x23 # word @ after)
       = hashtag_step lib False before @ word @ hashtag_step lib False after
     \<and> ((\<forall>i. Suc i < length s \<longrightarrow> s ! i = 0x23 \<longrightarrow> \<not> is_word lib (s ! Suc i))
          \<longrightarrow> hashtag_step lib remove s = s)
     \<and> (\<forall>i. Suc i < length (hashtag_step lib True s) \<longrightarrow> hashtag_step lib True s ! i = 0x23
          \<longrightarrow> \<not> is_word lib (hashtag_step lib True s ! Suc i))
     \<and> filter (\<lambda>c. c \<noteq> 0x23) (hashtag_step lib False s) = filter (\<lambda>c. c \<noteq> 0x23) s
     \<and> (before_hashtags lib opts (before @ 0x23 # word @ after) = before @ 0x23 # word @ after
          \<and> \<not> remove_emojis opts \<and> \<not> lowercase opts
          \<longrightarrow> clean_text lib opts (before @ 0x23 # word @ after)
                = strip (join_space (split
                    (hashtag_step lib (remove_hashtags opts) before
                     @ (if remove_hashtags opts then [] else word)
                     @ hashtag_step lib (remove_hashtags opts) after))))
     \<and> (remove_hashtags opts \<and> \<not> remove_emojis opts \<and> \<not> lowercase opts
          \<longrightarrow> (\<forall>i. Suc i < length (clean_text lib opts s) \<longrightarrow> clean_text lib opts s ! i = 0x23
                 \<longrightarrow> \<not> is_word lib (clean_text lib opts s ! Suc i)))
     \<and> (s \<noteq> [] \<and> \<not> remove_hashtags opts \<and> \<not> remove_emojis opts \<and> \<not> lowercase opts
          \<longrightarrow> filter (\<lambda>c. c \<noteq> 0x23 \<and> \<not> is_space c) (clean_text lib opts s)
                = filter (\<lambda>c. c \<noteq> 0x23 \<and> \<not> is_space c) (before_hashtags lib opts s))
     \<and> (\<not> normalize_unicode opts \<and> \<not> remove_urls opts \<and> \<not> remove_mentions opts
          \<and> \<not> remove_emojis opts \<and> \<not> lowercase opts
          \<longrightarrow> clean_text lib opts s
                = strip (join_space (split (hashtag_step lib (remove_hashtags opts) s)))
              \<and> ((\<forall>c\<in>set s. \<not> is_space c)
                  \<longrightarrow> clean_text lib opts s = hashtag_step lib (remove_hashtags opts) s))"
proof -
  have c1: "s \<noteq> [] \<longrightarrow>
            clean_text lib opts s
              = strip (join_space (split
                  (let text = hashtag_step lib (remove_hashtags opts) (before_hashtags lib opts s);
                       text = (if remove_emojis opts then sub_emoji text else text)
                   in if lowercase opts then lower lib text else text)))"
    using clean_text_hashtag_stage [where s = s and opts = opts and lib = lib] by blast
  have c2: "hashtag_step lib True (before @ 0x23 # word @ after)
       = hashtag_step lib True before @ hashtag_step lib True after"
    using hashtag_step_token [OF assms, where remove = True and before = before] by simp
  have c3: "hashtag_step lib False (before @ 0x23 # word @ after)
       = hashtag_step lib False before @ word @ hashtag_step lib False after"
    using hashtag_step_token [OF assms, where remove = False and before = before] by simp
  have c4: "(\<forall>i. Suc i < length s \<longrightarrow> s ! i = 0x23 \<longrightarrow> \<not> is_word lib (s ! Suc i))
          \<longrightarrow> hashtag_step lib remove s = s"
    using hashtag_step_none [where s = s and lib = lib and remove = remove] by blast
  have c5: "\<forall>i. Suc i < length (hashtag_step lib True s) \<longrightarrow> hashtag_step lib True s ! i = 0x23
          \<longrightarrow> \<not> is_word lib (hashtag_step lib True s ! Suc i)"
    using no_token_nth [OF hashtag_step_no_token [where lib = lib and s = s]] by blast
  have c6: "filter (\<lambda>c. c \<noteq> 0x23) (hashtag_step lib False s) = filter (\<lambda>c. c \<noteq> 0x23) s"
    by (rule hashtag_step_keeps)
  have c7: "before_hashtags lib opts (before @ 0x23 # word @ after) = before @ 0x23 # word @ after
          \<and> \<not> remove_emojis opts \<and> \<not> lowercase opts
          \<longrightarrow> clean_text lib opts (before @ 0x23 # word @ after)
                = strip (join_space (split
                    (hashtag_step lib (remove_hashtags opts) before
                     @ (if remove_hashtags opts then [] else word)
                     @ hashtag_step lib (remove_hashtags opts) after)))"
  proof
    assume h: "before_hashtags lib opts (before @ 0x23 # word @ after) = before @ 0x23 # word @ after
          \<and> \<not> remove_emojis opts \<and> \<not> lowercase opts"
    have ne: "before @ 0x23 # word @ after \<noteq> []" by simp
    from h have e: "\<not> remove_emojis opts" and l: "\<not> lowercase opts"
      and bh: "before_hashtags lib opts (before @ 0x23 # word @ after) = before @ 0x23 # word @ after"
      by blast+
    show "clean_text lib opts (before @ 0x23 # word @ after)
                = strip (join_space (split
                    (hashtag_step lib (remove_hashtags opts) before
                     @ (if remove_hashtags opts then [] else word)
                     @ hashtag_step lib (remove_hashtags opts) after)))"
      unfolding clean_text_plain [OF ne e l] bh
        hashtag_step_token [OF assms, where remove = "remove_hashtags opts" and before = before]
      by (rule refl)
  qed
  have c8: "remove_hashtags opts \<and> \<not> remove_emojis opts \<and> \<not> lowercase opts
          \<longrightarrow> (\<forall>i. Suc i < length (clean_text lib opts s) \<longrightarrow> clean_text lib opts s ! i = 0x23
                 \<longrightarrow> \<not> is_word lib (clean_text lib opts s ! Suc i))"
  proof
    assume "remove_hashtags opts \<and> \<not> remove_emojis opts \<and> \<not> lowercase opts"
    then have "no_token (is_word lib) 0x23 (clean_text lib opts s)"
      by (intro clean_text_no_token) blast+
    from no_token_nth [OF this]
    show "\<forall>i. Suc i < length (clean_text lib opts s) \<longrightarrow> clean_text lib opts s ! i = 0x23
                 \<longrightarrow> \<not> is_word lib (clean_text lib opts s ! Suc i)"
      by blast
  qed
  have c9: "s \<noteq> [] \<and> \<not> remove_hashtags opts \<and> \<not> remove_emojis opts \<and> \<not> lowercase opts
          \<longrightarrow> filter (\<lambda>c. c \<noteq> 0x23 \<and> \<not> is_space c) (clean_text lib opts s)
                = filter (\<lambda>c. c \<noteq> 0x23 \<and> \<not> is_space c) (before_hashtags lib opts s)"
    using clean_text_keeps [where s = s and opts = opts and lib = lib] by blast
  have c10: "\<not> normalize_unicode opts \<and> \<not> remove_urls opts \<and> \<not> remove_mentions opts
          \<and> \<not> remove_emojis opts \<and> \<not> lowercase opts
          \<longrightarrow> clean_text lib opts s
                = strip (join_space (split (hashtag_step lib (remove_hashtags opts) s)))
              \<and> ((\<forall>c\<in>set s. \<not> is_space c)
                  \<longrightarrow> clean_text lib opts s = hashtag_step lib (remove_hashtags opts) s)"
    using clean_text_only_hashtags [where s = s and opts = opts and lib = lib] by blast
  show ?thesis
    by (rule conjI [OF c1 conjI [OF c2 conjI [OF c3 conjI [OF c4 conjI [OF c5
          conjI [OF c6 conjI [OF c7 conjI [OF c8 conjI [OF c9 c10]]]]]]]]])
qed

text \<open>
  The amended C6 at the text \<open>I #love it\<close> with the default options: \<open>clean_text\<close> gives
  \<open>I love it\<close>, and \<open>I it\<close> with removal enabled; the step itself gives \<open>I love it\<close>, and
  the text with both spaces left with removal enabled.
\<close>

theorem clean_text_hashtags_witness:
  "clean_text sample_lib default_options (ustr ''I #love it'') = ustr ''I love it''
   \<and> clean_text sample_lib (default_options\<lparr>remove_hashtags := True\<rparr>) (ustr ''I #love it'')
       = ustr ''I it''
   \<and> hashtag_step sample_lib True (ustr ''I #love it'') = ustr ''I  it''
   \<and> hashtag_step sample_lib False (ustr ''I #love it'') = ustr ''I love it''"
proof -
  let ?on = "default_options\<lparr>remove_hashtags := True\<rparr>"
  have w: "ustr ''love'' \<noteq> []" "\<forall>c\<in>set (ustr ''love''). is_word sample_lib c"
    "ustr '' it'' = [] \<or> \<not> is_word sample_lib (hd (ustr '' it''))"
    by (simp_all add: ustr_def is_word_def in_range_def)
  have s: "ustr ''I #love it'' = ustr ''I '' @ 0x23 # ustr ''love'' @ ustr '' it''"
    by (simp add: ustr_def)
  have r: "hashtag_step sample_lib True (ustr ''I '') = ustr ''I ''"
    "hashtag_step sample_lib True (ustr '' it'') = ustr '' it''"
    "hashtag_step sample_lib False (ustr ''I '') = ustr ''I ''"
    "hashtag_step sample_lib False (ustr '' it'') = ustr '' it''"
    by (simp_all add: hashtag_step_def ustr_def)
  have e: "ustr ''I '' @ ustr '' it'' = ustr ''I  it''"
    "ustr ''I '' @ ustr ''love'' @ ustr '' it'' = ustr ''I love it''"
    by (simp_all add: ustr_def)
  have f: "strip (join_space (split (ustr ''I  it''))) = ustr ''I it''"
    "strip (join_space (split (ustr ''I love it''))) = ustr ''I love it''"
    by (simp_all add: ustr_def split_def strip_def is_space_def in_range_def)
  have bh: "before_hashtags sample_lib default_options (ustr ''I #love it'') = ustr ''I #love it''"
    "before_hashtags sample_lib ?on (ustr ''I #love it'') = ustr ''I #love it''"
    by (simp_all add: before_hashtags_def default_options_def sample_lib_def sample_nfkc_def
        match_url_def ustr_def is_word_def in_range_def)
  have fl: "\<not> remove_emojis default_options \<and> \<not> lowercase default_options
      \<and> \<not> remove_hashtags default_options"
    "\<not> remove_emojis ?on \<and> \<not> lowercase ?on \<and> remove_hashtags ?on"
    by (simp_all add: default_options_def)
  note t1 = clean_text_hashtags [OF w, where s = "ustr ''I #love it''" and opts = default_options
      and before = "ustr ''I ''" and remove = False]
  note t2 = clean_text_hashtags [OF w, where s = "ustr ''I #love it''" and opts = ?on
      and before = "ustr ''I ''" and remove = False]
  from t1 bh(1) fl(1) have a: "clean_text sample_lib default_options (ustr ''I #love it'')
      = ustr ''I love it''"
    unfolding s [symmetric] by (simp add: r e f)
  from t2 bh(2) fl(2) have b: "clean_text sample_lib ?on (ustr ''I #love it'') = ustr ''I it''"
    unfolding s [symmetric] by (simp add: r e f)
  from t1 have c: "hashtag_step sample_lib True (ustr ''I #love it'') = ustr ''I  it''"
    and d: "hashtag_step sample_lib False (ustr ''I #love it'') = ustr ''I love it''"
    unfolding s [symmetric] r e by blast+
  from a b c d show ?thesis by (intro conjI)
qed


end
